theory Spec2Isabelle
  imports Main "HOL-Library.AList"
begin

section \<open>Values of the host language\<close>

text \<open>
  \<^verbatim>\<open>src/src/EventManager.ts\<close> is untyped at run time: an event name, a payload and a
  comparer are arbitrary JavaScript values. \<open>jsval\<close> are the values that are not
  functions; objects (and arrays) are references, so \<open>=\<close> on \<open>jsval\<close> is the
  strict equality \<^verbatim>\<open>===\<close>. An argument that may be a function is a \<open>jsarg\<close>.
\<close>

datatype jsval = JUndefined | JNull | JBool bool | JNum int | JStr string | JObj nat

datatype jsarg = Value jsval | Func "jsval \<Rightarrow> jsval \<Rightarrow> jsval"

fun typeof :: "jsarg \<Rightarrow> string" where
  "typeof (Func f) = ''function''"
| "typeof (Value JUndefined) = ''undefined''"
| "typeof (Value JNull) = ''object''"
| "typeof (Value (JBool b)) = ''boolean''"
| "typeof (Value (JNum n)) = ''number''"
| "typeof (Value (JStr s)) = ''string''"
| "typeof (Value (JObj r)) = ''object''"

fun truthy :: "jsval \<Rightarrow> bool" where
  "truthy JUndefined = False"
| "truthy JNull = False"
| "truthy (JBool b) = b"
| "truthy (JNum n) = (n \<noteq> 0)"
| "truthy (JStr s) = (s \<noteq> [])"
| "truthy (JObj r) = True"

fun truthy_arg :: "jsarg \<Rightarrow> bool" where
  "truthy_arg (Value v) = truthy v"
| "truthy_arg (Func f) = True"

text \<open>The property key that a value which is a string denotes: the string itself.\<close>

fun property_key :: "jsval \<Rightarrow> string" where
  "property_key (JStr s) = s"
| "property_key v = []"

text \<open>
  The three hashes of the module are plain objects \<^verbatim>\<open>{}\<close>, and the code reads them with
  \<^verbatim>\<open>hash[event]\<close>: for a key that the hash does not have itself, the read finds what
  \<^verbatim>\<open>Object.prototype\<close> has under that key. These are the keys of \<^verbatim>\<open>Object.prototype\<close>;
  the value under each is a function, and under \<^verbatim>\<open>__proto__\<close> it is
  \<^verbatim>\<open>Object.prototype\<close> itself: every one is truthy, none is an array, none has a
  property \<^verbatim>\<open>subscribe\<close>, \<^verbatim>\<open>take\<close>, \<^verbatim>\<open>distinctUntilChanged\<close> or \<^verbatim>\<open>hasValue\<close>.
\<close>

definition inherited :: "string \<Rightarrow> bool" where
  "inherited key \<longleftrightarrow>
     key \<in> set [''constructor'', ''toString'', ''toLocaleString'', ''valueOf'',
                ''hasOwnProperty'', ''isPrototypeOf'', ''propertyIsEnumerable'', ''__proto__'',
                ''__defineGetter__'', ''__defineSetter__'', ''__lookupGetter__'',
                ''__lookupSetter__'']"

text \<open>What an operation can throw: a \<^verbatim>\<open>TypeError\<close> with its message, or the exception
  that the callback of the subscription \<open>h\<close> threw.\<close>

datatype error = TypeError string | Thrown nat

section \<open>The private helpers of EventManager.ts\<close>

text \<open>\<^verbatim>\<open>('string' !== typeof value) || (0 === value.length)\<close>\<close>

definition isInvalidString :: "jsval \<Rightarrow> bool" where
  "isInvalidString v =
     (''string'' \<noteq> typeof (Value v) \<or> (case v of JStr s \<Rightarrow> 0 = length s | _ \<Rightarrow> False))"

text \<open>\<^verbatim>\<open>'function' !== typeof value\<close>\<close>

definition isNotFunction :: "jsarg \<Rightarrow> bool" where
  "isNotFunction v = (''function'' \<noteq> typeof v)"

definition keySelector :: "jsval \<Rightarrow> jsval" where
  "keySelector data = data"

definition defaultComparer :: "jsval \<Rightarrow> jsval \<Rightarrow> jsval" where
  "defaultComparer x y = JBool (x = y)"

section \<open>The stream library, as far as EventManager.ts uses it\<close>

text \<open>
  A subscription to the broadcast subject \<^verbatim>\<open>eventManagerCore\<close> is one chain
  \<^verbatim>\<open>filter(event === e.event)\<close>, \<^verbatim>\<open>map(e.data)\<close>, an optional operator
  (\<^verbatim>\<open>take\<close>, \<^verbatim>\<open>distinctUntilChanged\<close>) and the destination subscriber with the
  caller's \<^verbatim>\<open>next\<close> callback.

  A callback is the caller's code, known here by a tag. The pair \<open>(h, v)\<close> in the list
  \<open>calls\<close> of the state says that the \<^verbatim>\<open>next\<close> callback of subscription \<open>h\<close> was
  invoked with \<open>v\<close>. What the callback does then is its \<open>reaction\<close>: whether an
  exception leaves it (\<open>throws\<close>: nothing between the callback and the caller of
  \<^verbatim>\<open>fire\<close> catches it), and whether its subscription is ended by the invocation
  (\<open>ends\<close>: the callback unsubscribes its own handle, or the library unsubscribes a
  subscriber whose callback failed). The field \<open>callbacks\<close> of the state gives the
  reaction of every tag to every value, so that the properties below hold for all
  callbacks of this kind. A callback does not call \<^verbatim>\<open>fire\<close>, \<^verbatim>\<open>off\<close> or another
  operation of the manager while it runs, and does not unsubscribe other handles;
  the \<^verbatim>\<open>error\<close> and \<^verbatim>\<open>complete\<close> callbacks are not recorded.

  \<^verbatim>\<open>take(limit)\<close> counts the values it has seen, passes the first \<open>limit\<close> on and
  completes after the last of them. \<^verbatim>\<open>distinctUntilChanged(compare)\<close> keeps the last
  value it passed on and drops a value when \<^verbatim>\<open>Boolean(compare(last, value))\<close> holds;
  in the rxjs that EventManager.ts imports (\<^verbatim>\<open>rxjs/add/operator/distinctUntilChanged\<close>)
  its first parameter is the comparison. Both update their own state before they hand
  the value on.
\<close>

datatype operator =
    Direct
  | Take nat nat
  | DistinctUntilChanged "jsval \<Rightarrow> jsval \<Rightarrow> jsval" "jsval option"

record subscriber =
  sub_event :: string
  sub_operator :: operator
  sub_next :: "nat option"
  sub_closed :: bool

record reaction =
  throws :: bool
  ends :: bool

definition returns :: reaction where
  "returns = \<lparr>throws = False, ends = False\<rparr>"

text \<open>One value through an operator: its new state, whether the value is passed on,
  and whether the stream completes.\<close>

fun operator_next :: "operator \<Rightarrow> jsval \<Rightarrow> operator \<times> bool \<times> bool" where
  "operator_next Direct v = (Direct, True, False)"
| "operator_next (Take limit seen) v =
     (Take limit (Suc seen), Suc seen \<le> limit, Suc seen = limit)"
| "operator_next (DistinctUntilChanged compare None) v =
     (DistinctUntilChanged compare (Some v), True, False)"
| "operator_next (DistinctUntilChanged compare (Some k)) v =
     (if truthy (compare k v) then (DistinctUntilChanged compare (Some k), False, False)
      else (DistinctUntilChanged compare (Some v), True, False))"

text \<open>An operator as \<^verbatim>\<open>take(limit)\<close> or \<^verbatim>\<open>distinctUntilChanged(compare)\<close> makes it,
  before any value.\<close>

fun fresh_operator :: "operator \<Rightarrow> bool" where
  "fresh_operator Direct = True"
| "fresh_operator (Take limit seen) = (seen = 0 \<and> 0 < limit)"
| "fresh_operator (DistinctUntilChanged compare key) = (key = None)"

text \<open>The destination subscriber gets \<open>v\<close>: the invocation made, whether an exception
  leaves it, and whether the subscription is ended by it. Without a \<^verbatim>\<open>next\<close>
  callback nothing is invoked.\<close>

definition call_next ::
  "(nat \<Rightarrow> jsval \<Rightarrow> reaction) \<Rightarrow> nat \<Rightarrow> subscriber \<Rightarrow> jsval \<Rightarrow> (nat \<times> jsval) list \<times> bool \<times> bool" where
  "call_next env h sub v =
     (case sub_next sub of
        None \<Rightarrow> ([], False, False)
      | Some cb \<Rightarrow> ([(h, v)], throws (env cb v), ends (env cb v)))"

text \<open>The envelope \<^verbatim>\<open>{ event: event, data: data }\<close> arrives at the subscription \<open>h\<close>:
  the subscriber afterwards, the invocation made, and whether an exception leaves it.
  When the callback throws, the operator does not get to complete.\<close>

definition receive ::
  "(nat \<Rightarrow> jsval \<Rightarrow> reaction) \<Rightarrow> string \<Rightarrow> jsval \<Rightarrow> nat \<Rightarrow> subscriber \<Rightarrow>
     subscriber \<times> (nat \<times> jsval) list \<times> bool" where
  "receive env event data h sub =
     (if sub_closed sub then (sub, [], False)
      else if sub_event sub \<noteq> event then (sub, [], False)
      else (case operator_next (sub_operator sub) data of
              (op', emit, complete) \<Rightarrow>
                if emit
                then (case call_next env h sub data of
                        (out, thrown, ended) \<Rightarrow>
                          (sub\<lparr>sub_operator := op',
                               sub_closed := ended \<or> (complete \<and> \<not> thrown)\<rparr>, out, thrown))
                else (sub\<lparr>sub_operator := op', sub_closed := complete\<rparr>, [], False)))"

text \<open>\<^verbatim>\<open>Subject.next\<close>: the observers in the order they subscribed; \<open>h\<close> is the
  position of the first one. There is no \<^verbatim>\<open>try\<close> around an observer: the exception
  of a callback ends the loop, and the observers after it are not reached. The result
  names the subscription whose callback threw.\<close>

fun notify ::
  "(nat \<Rightarrow> jsval \<Rightarrow> reaction) \<Rightarrow> string \<Rightarrow> jsval \<Rightarrow> nat \<Rightarrow> subscriber list \<Rightarrow>
     subscriber list \<times> (nat \<times> jsval) list \<times> nat option" where
  "notify env event data h [] = ([], [], None)"
| "notify env event data h (sub # subs) =
     (case receive env event data h sub of
        (sub', out, thrown) \<Rightarrow>
          if thrown then (sub' # subs, out, Some h)
          else (case notify env event data (Suc h) subs of
                  (subs', outs, thrower) \<Rightarrow> (sub' # subs', out @ outs, thrower)))"

section \<open>The state of the module\<close>

text \<open>
  The module-level constants of EventManager.ts. Objects that the code shares are kept
  in stores and named by their position: a subscription handle is a position in
  \<open>eventManagerCore\<close> (positions are never reused, an unsubscribed subscriber stays as a
  closed one, so the open subscribers in list order are the subject's observers); a
  topic stream is a position in \<open>streams\<close>; a latest-value object is a position in
  \<open>latest_objects\<close>. \<open>subscriptions\<close> is an association list in insertion order,
  because \<^verbatim>\<open>offAll\<close> enumerates its keys. \<open>observables\<close>, \<open>subscriptions\<close> and
  \<open>latestEventData\<close> hold the own properties of the three hashes; a read of a hash
  falls back on \<open>inherited\<close>. \<open>immediates\<close> is the queue of \<^verbatim>\<open>setImmediate\<close>
  callbacks, each the closure \<^verbatim>\<open>observer.next(latestData.value)\<close> over an observer
  and a latest-value object.

  \<open>prototype_written\<close> records that the module has assigned a property of
  \<^verbatim>\<open>Object.prototype\<close>, which it does when it is given the name \<^verbatim>\<open>__proto__\<close>
  (\<^verbatim>\<open>observable.subscribe = ...\<close> in \<^verbatim>\<open>observe\<close>, \<^verbatim>\<open>latestEventData[event].value = data\<close>
  in \<^verbatim>\<open>fire\<close>). From then on the hashes inherit \<^verbatim>\<open>subscribe\<close> or \<^verbatim>\<open>value\<close> as
  well, with values that \<open>inherited\<close> does not list; the properties of runs below are
  stated for runs in which this has not happened.
\<close>

record observable =
  obs_event :: string
  obs_wrappers :: nat

record latest_data =
  hasValue :: bool
  latest_value :: jsval

record manager =
  eventManagerCore :: "subscriber list"
  streams :: "observable list"
  observables :: "string \<rightharpoonup> nat"
  subscriptions :: "(string \<times> nat list) list"
  latest_objects :: "latest_data list"
  latestEventData :: "string \<rightharpoonup> nat"
  immediates :: "(nat \<times> nat) list"
  calls :: "(nat \<times> jsval) list"
  callbacks :: "nat \<Rightarrow> jsval \<Rightarrow> reaction"
  prototype_written :: bool

text \<open>The module when it is loaded, among callbacks that all return normally, and
  among callbacks that react as \<open>env\<close> says.\<close>

definition init :: manager where
  "init = \<lparr>eventManagerCore = [], streams = [], observables = Map.empty, subscriptions = [],
           latest_objects = [], latestEventData = Map.empty, immediates = [], calls = [],
           callbacks = (\<lambda>cb v. returns), prototype_written = False\<rparr>"

definition start :: "(nat \<Rightarrow> jsval \<Rightarrow> reaction) \<Rightarrow> manager" where
  "start env = init\<lparr>callbacks := env\<rparr>"

section \<open>Subscribing and registering\<close>

text \<open>\<^verbatim>\<open>Observable.prototype.subscribe\<close> on a stream of the subject: a new subscriber
  at the end of the observers, which is the handle returned.\<close>

definition rx_subscribe ::
  "string \<Rightarrow> operator \<Rightarrow> nat option \<Rightarrow> manager \<Rightarrow> nat \<times> manager" where
  "rx_subscribe event oper nxt s =
     (length (eventManagerCore s),
      s\<lparr>eventManagerCore := eventManagerCore s @
           [\<lparr>sub_event = event, sub_operator = oper, sub_next = nxt, sub_closed = False\<rparr>]\<rparr>)"

text \<open>\<^verbatim>\<open>Subscription.unsubscribe\<close>; on a closed subscription it does nothing.\<close>

definition unsubscribe :: "nat \<Rightarrow> manager \<Rightarrow> manager" where
  "unsubscribe h s =
     (if h < length (eventManagerCore s)
      then s\<lparr>eventManagerCore :=
               (eventManagerCore s)[h := (eventManagerCore s ! h)\<lparr>sub_closed := True\<rparr>]\<rparr>
      else s)"

text \<open>\<^verbatim>\<open>_registerSubscription(event, subscription)\<close>. It is reached only with the name
  of a topic stream, which is not an inherited key; what \<^verbatim>\<open>subscriptions[event]\<close>
  inherits is not an array.\<close>

definition registerSubscription :: "string \<Rightarrow> nat \<Rightarrow> manager \<Rightarrow> nat \<times> manager" where
  "registerSubscription event subscription s =
     (case map_of (subscriptions s) event of
        Some hs \<Rightarrow>
          (subscription,
           s\<lparr>subscriptions := AList.update event (hs @ [subscription]) (subscriptions s)\<rparr>)
      | None \<Rightarrow>
          (subscription,
           s\<lparr>subscriptions := AList.update event [subscription] (subscriptions s)\<rparr>))"

text \<open>
  Every call of \<^verbatim>\<open>observe\<close> replaces \<^verbatim>\<open>observable.subscribe\<close> by a function that
  calls the \<^verbatim>\<open>subscribe\<close> it found there and registers the result. After \<open>k\<close>
  calls the \<^verbatim>\<open>subscribe\<close> of the stream is \<open>k\<close> such functions around the library's.
\<close>

fun subscribe_wrapped :: "nat \<Rightarrow> string \<Rightarrow> nat option \<Rightarrow> manager \<Rightarrow> nat \<times> manager" where
  "subscribe_wrapped 0 event nxt s = rx_subscribe event Direct nxt s"
| "subscribe_wrapped (Suc k) event nxt s =
     (case subscribe_wrapped k event nxt s of
        (subscription, s') \<Rightarrow> registerSubscription event subscription s')"

text \<open>What \<^verbatim>\<open>observables[event]\<close> can be: the topic stream at a position of the store,
  or the object that the hash inherits under the key.\<close>

datatype object = Topic nat | Inherited string

text \<open>\<^verbatim>\<open>observable.subscribe(next)\<close> on what \<^verbatim>\<open>observe\<close> returned. On a topic stream
  it is the functions that \<^verbatim>\<open>observe\<close> installed around the library's
  \<^verbatim>\<open>subscribe\<close> (a position that holds no stream is not a stream the caller can
  have). On an inherited object it is the function that \<^verbatim>\<open>observe\<close> installed there,
  whose \<^verbatim>\<open>originalSubscribe\<close> is \<^verbatim>\<open>undefined\<close>: \<^verbatim>\<open>originalSubscribe.call\<close> throws.\<close>

definition subscribe :: "object \<Rightarrow> nat option \<Rightarrow> manager \<Rightarrow> (error + nat) \<times> manager" where
  "subscribe ob nxt s =
     (case ob of
        Topic a \<Rightarrow>
          (case subscribe_wrapped (obs_wrappers (streams s ! a)) (obs_event (streams s ! a)) nxt s of
             (subscription, s') \<Rightarrow> (Inr subscription, s'))
      | Inherited key \<Rightarrow> (Inl (TypeError ''Cannot read property call of undefined''), s))"

section \<open>The public operations\<close>

text \<open>
  An operation returns its outcome (\<open>Inl\<close> the exception thrown) together with the
  state in which it returns or throws.
\<close>

text \<open>\<^verbatim>\<open>if (!observables[event]) { observables[event] = eventManagerCore.filter(...).map(...) }\<close>
  and \<^verbatim>\<open>const observable = observables[event]\<close>: under an inherited key the hash has a
  truthy value, no stream is made and \<^verbatim>\<open>observable\<close> is the inherited object.\<close>

definition topic :: "string \<Rightarrow> manager \<Rightarrow> object \<times> manager" where
  "topic event s =
     (case observables s event of
        Some a \<Rightarrow> (Topic a, s)
      | None \<Rightarrow>
          if inherited event then (Inherited event, s)
          else
            (Topic (length (streams s)),
             s\<lparr>streams := streams s @ [\<lparr>obs_event = event, obs_wrappers = 0\<rparr>],
               observables := (observables s)(event \<mapsto> length (streams s))\<rparr>))"

text \<open>\<^verbatim>\<open>observable.subscribe = (...args) => _registerSubscription(event, originalSubscribe.call(observable, ...args))\<close>.
  On an inherited object the assignment makes a property of that object; the object
  under \<^verbatim>\<open>__proto__\<close> is \<^verbatim>\<open>Object.prototype\<close>.\<close>

definition wrap_subscribe :: "object \<Rightarrow> manager \<Rightarrow> manager" where
  "wrap_subscribe ob s =
     (case ob of
        Topic a \<Rightarrow>
          s\<lparr>streams := (streams s)[a := (streams s ! a)\<lparr>obs_wrappers := Suc (obs_wrappers (streams s ! a))\<rparr>]\<rparr>
      | Inherited key \<Rightarrow> if key = ''__proto__'' then s\<lparr>prototype_written := True\<rparr> else s)"

definition observe :: "jsval \<Rightarrow> manager \<Rightarrow> (error + object) \<times> manager" where
  "observe event s =
     (if isInvalidString event
      then (Inl (TypeError ''given event is not a valid string''), s)
      else (case topic (property_key event) s of
              (ob, s1) \<Rightarrow> (Inr ob, wrap_subscribe ob s1)))"

definition on :: "jsval \<Rightarrow> nat option \<Rightarrow> manager \<Rightarrow> (error + nat) \<times> manager" where
  "on event nxt s =
     (case observe event s of
        (Inl e, s1) \<Rightarrow> (Inl e, s1)
      | (Inr ob, s1) \<Rightarrow>
          (case subscribe ob nxt s1 of
             (Inl e, s2) \<Rightarrow> (Inl e, s2)
           | (Inr subscription, s2) \<Rightarrow>
               (case registerSubscription (property_key event) subscription s2 of
                  (h, s3) \<Rightarrow> (Inr h, s3))))"

text \<open>\<^verbatim>\<open>this.observe(event).take(1).subscribe(next, error, complete)\<close>: \<^verbatim>\<open>take(1)\<close>
  is a new stream, and its \<^verbatim>\<open>subscribe\<close> is the library's, not the one \<^verbatim>\<open>observe\<close>
  installed on the topic stream (test/EventManager.spec.js notes that the stream an
  operator makes does not have the overwritten \<^verbatim>\<open>subscribe\<close>). The same holds for
  the \<^verbatim>\<open>distinctUntilChanged\<close> stream of \<^verbatim>\<open>change\<close>. An inherited object has no
  \<^verbatim>\<open>take\<close> and no \<^verbatim>\<open>distinctUntilChanged\<close>: calling it throws.\<close>

definition once :: "jsval \<Rightarrow> nat option \<Rightarrow> manager \<Rightarrow> (error + nat) \<times> manager" where
  "once event nxt s =
     (case observe event s of
        (Inl e, s1) \<Rightarrow> (Inl e, s1)
      | (Inr ob, s1) \<Rightarrow>
          (case ob of
             Inherited key \<Rightarrow> (Inl (TypeError ''take is not a function''), s1)
           | Topic a \<Rightarrow>
               (case rx_subscribe (obs_event (streams s1 ! a)) (Take 1 0) nxt s1 of
                  (subscription, s2) \<Rightarrow>
                    (case registerSubscription (property_key event) subscription s2 of
                       (h, s3) \<Rightarrow> (Inr h, s3)))))"

text \<open>What \<^verbatim>\<open>latest\<close> and \<^verbatim>\<open>change\<close> return: what \<^verbatim>\<open>observe\<close> returned, the stream
  \<^verbatim>\<open>observe(event).distinctUntilChanged(_keySelector)\<close> over a topic stream, or a
  subscription.\<close>

datatype returned = Stream object | Changes nat | Subscription nat

text \<open>In \<^verbatim>\<open>latest\<close>, \<^verbatim>\<open>latestData && true === latestData.hasValue\<close> holds of a
  latest-value object of the hash itself only.\<close>

definition latest :: "jsval \<Rightarrow> nat option \<Rightarrow> manager \<Rightarrow> (error + returned) \<times> manager" where
  "latest event nxt s =
     (case observe event s of
        (Inl e, s1) \<Rightarrow> (Inl e, s1)
      | (Inr ob, s1) \<Rightarrow>
          (case nxt of
             None \<Rightarrow> (Inr (Stream ob), s1)
           | Some cb \<Rightarrow>
               (case subscribe ob (Some cb) s1 of
                  (Inl e, s2) \<Rightarrow> (Inl e, s2)
                | (Inr observer, s2) \<Rightarrow>
                    let s3 =
                      (case latestEventData s2 (property_key event) of
                         None \<Rightarrow> s2
                       | Some latestData \<Rightarrow>
                           if hasValue (latest_objects s2 ! latestData)
                           then s2\<lparr>immediates := immediates s2 @ [(observer, latestData)]\<rparr>
                           else s2)
                    in (case registerSubscription (property_key event) observer s3 of
                          (h, s4) \<Rightarrow> (Inr (Subscription h), s4)))))"

definition change ::
  "jsval \<Rightarrow> jsarg \<Rightarrow> nat option \<Rightarrow> manager \<Rightarrow> (error + returned) \<times> manager" where
  "change event comparer nxt s =
     (let comparer' = (if truthy_arg comparer then comparer else Func defaultComparer) in
      if isNotFunction comparer'
      then (Inl (TypeError ''comparer should be a function''), s)
      else
        (case observe event s of
           (Inl e, s1) \<Rightarrow> (Inl e, s1)
         | (Inr ob, s1) \<Rightarrow>
             (case ob of
                Inherited key \<Rightarrow> (Inl (TypeError ''distinctUntilChanged is not a function''), s1)
              | Topic a \<Rightarrow>
                  (case nxt of
                     None \<Rightarrow> (Inr (Changes a), s1)
                   | Some cb \<Rightarrow>
                       (case rx_subscribe (obs_event (streams s1 ! a))
                               (DistinctUntilChanged (\<lambda>x y. keySelector x) None) (Some cb) s1 of
                          (subscription, s2) \<Rightarrow>
                            (case registerSubscription (property_key event) subscription s2 of
                               (h, s3) \<Rightarrow> (Inr (Subscription h), s3)))))))"

text \<open>\<^verbatim>\<open>fire\<close>. Under an inherited key \<^verbatim>\<open>latestEventData[event]\<close> is truthy: no
  latest-value object is made, and \<^verbatim>\<open>latestEventData[event].value = data\<close> makes a
  property of the inherited object. \<^verbatim>\<open>eventManagerCore.next\<close> is not inside a
  \<^verbatim>\<open>try\<close>: the exception of a callback leaves \<^verbatim>\<open>fire\<close>.\<close>

definition fire :: "jsval \<Rightarrow> jsval \<Rightarrow> manager \<Rightarrow> (error + unit) \<times> manager" where
  "fire event data s =
     (if isInvalidString event
      then (Inl (TypeError ''given event is not a valid string''), s)
      else
        let (latestData, s1) =
              (case latestEventData s (property_key event) of
                 Some r \<Rightarrow> (Some r, s)
               | None \<Rightarrow>
                   if inherited (property_key event) then (None, s)
                   else
                     (Some (length (latest_objects s)),
                      s\<lparr>latest_objects := latest_objects s @
                           [\<lparr>hasValue = True, latest_value = JUndefined\<rparr>],
                        latestEventData :=
                          (latestEventData s)(property_key event \<mapsto> length (latest_objects s))\<rparr>));
            s2 = (case latestData of
                    Some r \<Rightarrow>
                      s1\<lparr>latest_objects :=
                           (latest_objects s1)[r := (latest_objects s1 ! r)\<lparr>latest_value := data\<rparr>]\<rparr>
                  | None \<Rightarrow>
                      if property_key event = ''__proto__'' then s1\<lparr>prototype_written := True\<rparr>
                      else s1)
        in (case notify (callbacks s2) (property_key event) data 0 (eventManagerCore s2) of
              (subs, out, thrower) \<Rightarrow>
                ((case thrower of None \<Rightarrow> Inr () | Some h \<Rightarrow> Inl (Thrown h)),
                 s2\<lparr>eventManagerCore := subs, calls := calls s2 @ out\<rparr>)))"

definition trigger :: "jsval \<Rightarrow> jsval \<Rightarrow> manager \<Rightarrow> (error + unit) \<times> manager" where
  "trigger event data s = fire event data s"

text \<open>\<^verbatim>\<open>off\<close> has no check of its argument and no \<^verbatim>\<open>throw\<close>; it indexes the two
  hashes with the argument, which has the declared type \<^verbatim>\<open>string\<close>. What
  \<^verbatim>\<open>subscriptions[event]\<close> inherits is not an array, and \<^verbatim>\<open>delete\<close> removes a
  property of the hash itself only.\<close>

definition off :: "string \<Rightarrow> manager \<Rightarrow> (error + unit) \<times> manager" where
  "off event s =
     (let s1 = (case map_of (subscriptions s) event of
                  Some hs \<Rightarrow>
                    (fold unsubscribe hs s)\<lparr>subscriptions := AList.delete event (subscriptions s)\<rparr>
                | None \<Rightarrow> s);
          s2 = (case latestEventData s1 event of
                  Some r \<Rightarrow> s1\<lparr>latestEventData := (latestEventData s1)(event := None)\<rparr>
                | None \<Rightarrow> s1)
      in (Inr (), s2))"

text \<open>\<^verbatim>\<open>Object.keys(subscriptions).forEach((event) => this.off(event))\<close>\<close>

definition offAll :: "manager \<Rightarrow> (error + unit) \<times> manager" where
  "offAll s = (Inr (), fold (\<lambda>event s'. snd (off event s')) (map fst (subscriptions s)) s)"

section \<open>The event loop\<close>

text \<open>One \<^verbatim>\<open>setImmediate\<close> callback, \<^verbatim>\<open>observer.next(latestData.value)\<close>: a closed
  subscriber ignores \<^verbatim>\<open>next\<close>. The result says whether an exception left it.\<close>

definition run_immediate :: "nat \<times> nat \<Rightarrow> manager \<Rightarrow> manager \<times> bool" where
  "run_immediate task s =
     (case task of
        (observer, latestData) \<Rightarrow>
          if sub_closed (eventManagerCore s ! observer) then (s, False)
          else
            (case call_next (callbacks s) observer (eventManagerCore s ! observer)
                    (latest_value (latest_objects s ! latestData)) of
               (out, thrown, ended) \<Rightarrow>
                 (s\<lparr>eventManagerCore :=
                      (eventManagerCore s)[observer :=
                         (eventManagerCore s ! observer)\<lparr>sub_closed := ended\<rparr>],
                    calls := calls s @ out\<rparr>, thrown)))"

text \<open>The queued callbacks in the order they were queued. An exception that leaves
  one of them is caught by nobody: the process ends, and the callbacks after it do
  not run.\<close>

fun run_immediates :: "(nat \<times> nat) list \<Rightarrow> manager \<Rightarrow> manager" where
  "run_immediates [] s = s"
| "run_immediates (task # tasks) s =
     (case run_immediate task s of
        (s', thrown) \<Rightarrow> if thrown then s' else run_immediates tasks s')"

text \<open>The next turn of the event loop. It starts only when the running operation has
  returned.\<close>

definition tick :: "manager \<Rightarrow> manager" where
  "tick s = run_immediates (immediates s) (s\<lparr>immediates := []\<rparr>)"

section \<open>Programs against the manager\<close>

text \<open>What a caller can do between two turns of the event loop: call a public
  operation; subscribe to a topic stream it was given; subscribe to a stream it has
  derived from a topic stream with an operator of the library (\<open>Derive\<close>; the stream
  that \<^verbatim>\<open>change\<close> returns when it is given no callback is
  \<^verbatim>\<open>distinctUntilChanged(_keySelector)\<close> over the topic stream), which is a
  subscription by the library's own \<^verbatim>\<open>subscribe\<close>; or cancel a handle it was
  given; and let the event loop turn. An exception is caught by the caller.\<close>

datatype call =
    Observe jsval
  | Subscribe nat "nat option"
  | Derive nat operator "nat option"
  | On jsval "nat option"
  | Once jsval "nat option"
  | Latest jsval "nat option"
  | Change jsval jsarg "nat option"
  | Fire jsval jsval
  | Off string
  | OffAll
  | Unsubscribe nat
  | Tick

fun apply_call :: "call \<Rightarrow> manager \<Rightarrow> manager" where
  "apply_call (Observe event) s = snd (observe event s)"
| "apply_call (Subscribe a nxt) s =
     (if a < length (streams s) then snd (subscribe (Topic a) nxt s) else s)"
| "apply_call (Derive a oper nxt) s =
     (if a < length (streams s) \<and> fresh_operator oper
      then snd (rx_subscribe (obs_event (streams s ! a)) oper nxt s) else s)"
| "apply_call (On event nxt) s = snd (on event nxt s)"
| "apply_call (Once event nxt) s = snd (once event nxt s)"
| "apply_call (Latest event nxt) s = snd (latest event nxt s)"
| "apply_call (Change event comparer nxt) s = snd (change event comparer nxt s)"
| "apply_call (Fire event data) s = snd (fire event data s)"
| "apply_call (Off event) s = snd (off event s)"
| "apply_call OffAll s = snd (offAll s)"
| "apply_call (Unsubscribe h) s = unsubscribe h s"
| "apply_call Tick s = tick s"

definition run :: "call list \<Rightarrow> manager \<Rightarrow> manager" where
  "run cs s = fold apply_call cs s"

section \<open>Notions for stating the properties\<close>

subsection \<open>Observations of a state\<close>

text \<open>The collection \<^verbatim>\<open>subscriptions[event]\<close>, empty when there is none.\<close>

definition registered :: "manager \<Rightarrow> string \<Rightarrow> nat list" where
  "registered s event = (case map_of (subscriptions s) event of None \<Rightarrow> [] | Some hs \<Rightarrow> hs)"

text \<open>The payloads with which the callback of the subscription \<open>h\<close> has been invoked so
  far, oldest first.\<close>

definition received :: "manager \<Rightarrow> nat \<Rightarrow> jsval list" where
  "received s h = map snd (filter (\<lambda>c. fst c = h) (calls s))"

text \<open>The value that \<^verbatim>\<open>latest\<close> would replay for \<open>event\<close>: its test is
  \<^verbatim>\<open>latestData && true === latestData.hasValue\<close>, and the value is
  \<^verbatim>\<open>latestData.value\<close>.\<close>

definition peek :: "manager \<Rightarrow> string \<Rightarrow> jsval option" where
  "peek s event =
     (case latestEventData s event of
        None \<Rightarrow> None
      | Some latestData \<Rightarrow>
          if hasValue (latest_objects s ! latestData)
          then Some (latest_value (latest_objects s ! latestData)) else None)"

text \<open>The \<^verbatim>\<open>setImmediate\<close> callbacks that \<^verbatim>\<open>latest\<close> queues for a new observer.\<close>

definition scheduled :: "manager \<Rightarrow> string \<Rightarrow> nat \<Rightarrow> (nat \<times> nat) list" where
  "scheduled s event observer =
     (case latestEventData s event of
        None \<Rightarrow> []
      | Some latestData \<Rightarrow>
          if hasValue (latest_objects s ! latestData) then [(observer, latestData)] else [])"

text \<open>The invocations that one queued callback makes when it runs in state \<open>s\<close>.\<close>

definition replay :: "manager \<Rightarrow> nat \<times> nat \<Rightarrow> (nat \<times> jsval) list" where
  "replay s t =
     (if sub_closed (eventManagerCore s ! fst t) then []
      else fst (call_next (callbacks s) (fst t) (eventManagerCore s ! fst t)
                  (latest_value (latest_objects s ! snd t))))"

text \<open>The number of registering functions that \<^verbatim>\<open>observe\<close> has put around the
  \<^verbatim>\<open>subscribe\<close> of the topic stream of \<open>event\<close>: the number of times \<^verbatim>\<open>observe\<close> has
  run for the name.\<close>

definition wrappers :: "manager \<Rightarrow> string \<Rightarrow> nat" where
  "wrappers s event =
     (case observables s event of None \<Rightarrow> 0 | Some a \<Rightarrow> obs_wrappers (streams s ! a))"

text \<open>Whether an operator lets a value through, and whether the callback of a
  subscriber is invoked for the payload \<open>v\<close> of an envelope for \<open>event\<close> that reaches
  it: the subscriber is open, its topic is that of \<open>event\<close>, it has a callback, and
  its operator lets \<open>v\<close> through. \<open>throwing\<close>: it is invoked and throws.\<close>

definition passes :: "operator \<Rightarrow> jsval \<Rightarrow> bool" where
  "passes oper v = fst (snd (operator_next oper v))"

definition hears :: "string \<Rightarrow> jsval \<Rightarrow> subscriber \<Rightarrow> bool" where
  "hears event v sub \<longleftrightarrow>
     \<not> sub_closed sub \<and> sub_event sub = event \<and> sub_next sub \<noteq> None \<and> passes (sub_operator sub) v"

definition throwing :: "(nat \<Rightarrow> jsval \<Rightarrow> reaction) \<Rightarrow> string \<Rightarrow> jsval \<Rightarrow> subscriber \<Rightarrow> bool" where
  "throwing env event v sub \<longleftrightarrow>
     hears event v sub \<and> (case sub_next sub of None \<Rightarrow> False | Some cb \<Rightarrow> throws (env cb v))"

text \<open>The envelope reaches the subscriber at position \<open>h\<close>: no callback before it
  throws.\<close>

definition reached :: "(nat \<Rightarrow> jsval \<Rightarrow> reaction) \<Rightarrow> string \<Rightarrow> jsval \<Rightarrow> subscriber list \<Rightarrow> nat \<Rightarrow> bool" where
  "reached env event v subs h \<longleftrightarrow> (\<forall>k < h. \<not> throwing env event v (subs ! k))"

text \<open>The callback of a subscriber never throws; the callback of a queued
  \<^verbatim>\<open>setImmediate\<close> closure throws on the value the closure would hand it.\<close>

definition patient :: "(nat \<Rightarrow> jsval \<Rightarrow> reaction) \<Rightarrow> subscriber \<Rightarrow> bool" where
  "patient env sub \<longleftrightarrow> (case sub_next sub of None \<Rightarrow> True | Some cb \<Rightarrow> \<forall>v. \<not> throws (env cb v))"

definition would_throw :: "manager \<Rightarrow> nat \<times> nat \<Rightarrow> bool" where
  "would_throw s task \<longleftrightarrow>
     (case sub_next (eventManagerCore s ! fst task) of
        None \<Rightarrow> False
      | Some cb \<Rightarrow> throws (callbacks s cb (latest_value (latest_objects s ! snd task))))"

subsection \<open>Invariants of the states the module can reach\<close>

text \<open>A cached topic stream is in the store, filters for the name it is cached under,
  which is not an inherited key, and has had its \<^verbatim>\<open>subscribe\<close> replaced at least
  once.\<close>

definition inv_streams :: "manager \<Rightarrow> bool" where
  "inv_streams s \<longleftrightarrow>
     (\<forall>n a. observables s n = Some a \<longrightarrow>
        a < length (streams s) \<and> obs_event (streams s ! a) = n \<and> \<not> inherited n)
   \<and> (\<forall>a < length (streams s). 0 < obs_wrappers (streams s ! a))"

text \<open>A registered handle is a subscription to the topic it is registered under.\<close>

definition inv_reg :: "manager \<Rightarrow> bool" where
  "inv_reg s \<longleftrightarrow>
     (\<forall>n. \<forall>h \<in> set (registered s n).
        h < length (eventManagerCore s) \<and> sub_event (eventManagerCore s ! h) = n)"

text \<open>A latest-value object in the hash is in the store and has \<^verbatim>\<open>hasValue\<close> true, and
  its name is not an inherited key; two names never share one.\<close>

definition inv_latest :: "manager \<Rightarrow> bool" where
  "inv_latest s \<longleftrightarrow>
     (\<forall>n r. latestEventData s n = Some r \<longrightarrow>
        r < length (latest_objects s) \<and> hasValue (latest_objects s ! r) \<and> \<not> inherited n)
   \<and> (\<forall>n m r. latestEventData s n = Some r \<longrightarrow> latestEventData s m = Some r \<longrightarrow> n = m)"

text \<open>A queued callback is for a subscriber without operator (one made by
  \<^verbatim>\<open>latest\<close>).\<close>

definition inv_imm :: "manager \<Rightarrow> bool" where
  "inv_imm s \<longleftrightarrow>
     (\<forall>t \<in> set (immediates s).
        fst t < length (eventManagerCore s) \<and> sub_operator (eventManagerCore s ! fst t) = Direct)"

text \<open>Only existing subscriptions have been called; the callback of a \<^verbatim>\<open>take(limit)\<close>
  has been invoked no more often than the operator has seen values, and no more than
  \<open>limit\<close> times; and the subscription is closed when the operator has seen \<open>limit\<close>
  values and the callback does not throw.\<close>

definition inv_calls :: "manager \<Rightarrow> bool" where
  "inv_calls s \<longleftrightarrow>
     (\<forall>c \<in> set (calls s). fst c < length (eventManagerCore s))
   \<and> (\<forall>h < length (eventManagerCore s). \<forall>limit seen.
        sub_operator (eventManagerCore s ! h) = Take limit seen \<longrightarrow>
          length (received s h) \<le> seen \<and> length (received s h) \<le> limit
          \<and> (limit \<le> seen \<and> 0 < limit \<and> patient (callbacks s) (eventManagerCore s ! h) \<longrightarrow>
               sub_closed (eventManagerCore s ! h)))"

definition wf :: "manager \<Rightarrow> bool" where
  "wf s \<longleftrightarrow> inv_streams s \<and> inv_reg s \<and> inv_latest s \<and> inv_imm s \<and> inv_calls s"

subsection \<open>The shape of a subscribing call\<close>

text \<open>\<open>s'\<close> differs from \<open>s\<close> at most in the topic streams and in
  \<open>prototype_written\<close>.\<close>

definition same_listeners :: "manager \<Rightarrow> manager \<Rightarrow> bool" where
  "same_listeners s s' \<longleftrightarrow>
     eventManagerCore s' = eventManagerCore s \<and> subscriptions s' = subscriptions s
   \<and> latest_objects s' = latest_objects s \<and> latestEventData s' = latestEventData s
   \<and> immediates s' = immediates s \<and> calls s' = calls s \<and> callbacks s' = callbacks s"

text \<open>\<open>s'\<close> is \<open>s\<close> with the new open subscriber \<open>sub\<close>, whose operator is fresh, put
  \<open>k\<close> times into the collection of its topic.\<close>

definition subscribed :: "manager \<Rightarrow> manager \<Rightarrow> subscriber \<Rightarrow> bool" where
  "subscribed s s' sub \<longleftrightarrow>
     eventManagerCore s' = eventManagerCore s @ [sub] \<and> \<not> sub_closed sub
   \<and> fresh_operator (sub_operator sub)
   \<and> (\<exists>k. \<forall>m. registered s' m =
          (if m = sub_event sub
           then registered s m @ replicate k (length (eventManagerCore s))
           else registered s m))"

text \<open>What \<^verbatim>\<open>observe\<close>, \<^verbatim>\<open>on\<close>, \<^verbatim>\<open>once\<close>, \<^verbatim>\<open>latest\<close>, \<^verbatim>\<open>change\<close> and a
  subscription by the caller do to the subscribers, the registry and the queue:
  nothing, or one new subscriber, with a queued replay at most when it has no
  operator.\<close>

definition extends :: "manager \<Rightarrow> manager \<Rightarrow> bool" where
  "extends s s' \<longleftrightarrow>
     calls s' = calls s \<and> latest_objects s' = latest_objects s
   \<and> latestEventData s' = latestEventData s \<and> callbacks s' = callbacks s
   \<and> ((eventManagerCore s' = eventManagerCore s \<and> subscriptions s' = subscriptions s
        \<and> immediates s' = immediates s)
      \<or> (\<exists>sub. subscribed s s' sub
            \<and> (immediates s' = immediates s
                \<or> (\<exists>r. immediates s' = immediates s @ [(length (eventManagerCore s), r)]
                      \<and> sub_operator sub = Direct))))"

subsection \<open>Runs\<close>

text \<open>The call runs \<^verbatim>\<open>off(event)\<close>: it is that call, or it is \<^verbatim>\<open>offAll()\<close> and
  \<open>event\<close> is a key of \<^verbatim>\<open>subscriptions\<close>. \<open>no_off\<close> says that no call of a run does;
  \<open>last_fired\<close> is the data of the last \<^verbatim>\<open>fire\<close> on \<open>event\<close> in a run, \<open>v\<close> when
  there is none.\<close>

definition performs_off :: "string \<Rightarrow> call \<Rightarrow> manager \<Rightarrow> bool" where
  "performs_off event c s \<longleftrightarrow>
     c = Off event \<or> (c = OffAll \<and> event \<in> set (map fst (subscriptions s)))"

fun no_off :: "string \<Rightarrow> call list \<Rightarrow> manager \<Rightarrow> bool" where
  "no_off event [] s = True"
| "no_off event (c # cs) s = (\<not> performs_off event c s \<and> no_off event cs (apply_call c s))"

fun last_fired :: "string \<Rightarrow> jsval \<Rightarrow> call list \<Rightarrow> jsval" where
  "last_fired event v [] = v"
| "last_fired event v (Fire e d # cs) = last_fired event (if e = JStr event then d else v) cs"
| "last_fired event v (c # cs) = last_fired event v cs"

text \<open>The module after \<^verbatim>\<open>change('a', undefined, cb)\<close> and \<^verbatim>\<open>fire('a', 1)\<close>.\<close>

definition change_listener_state :: manager where
  "change_listener_state =
     run [Change (JStr ''a'') (Value JUndefined) (Some 0), Fire (JStr ''a'') (JNum 1)] init"

section \<open>Validation of the arguments\<close>

lemma valid_name: "\<not> isInvalidString v \<Longrightarrow> \<exists>n. v = JStr n \<and> n \<noteq> []"
  by (cases v) (simp_all add: isInvalidString_def)

lemma valid_JStr [simp]: "isInvalidString (JStr n) \<longleftrightarrow> n = []"
  by (simp add: isInvalidString_def)

lemma observe_invalid:
  "isInvalidString event \<Longrightarrow>
     observe event s = (Inl (TypeError ''given event is not a valid string''), s)"
  by (simp add: observe_def)

text \<open>
  C3, as amended. \<^verbatim>\<open>observe\<close>, \<^verbatim>\<open>on\<close>, \<^verbatim>\<open>once\<close>, \<^verbatim>\<open>latest\<close>, \<^verbatim>\<open>change\<close> and
  \<^verbatim>\<open>fire\<close> throw a \<^verbatim>\<open>TypeError\<close> when the name is not a non-empty string, and the
  state in which they throw is the state in which they were called (\<^verbatim>\<open>change\<close>
  may throw for its comparer instead, also before any effect). \<^verbatim>\<open>off\<close> validates
  nothing and never throws, whatever its argument.
\<close>

theorem invalid_name_rejected:
  assumes "isInvalidString event"
  shows "observe event s = (Inl (TypeError ''given event is not a valid string''), s)
       \<and> on event nxt s = (Inl (TypeError ''given event is not a valid string''), s)
       \<and> once event nxt s = (Inl (TypeError ''given event is not a valid string''), s)
       \<and> latest event nxt s = (Inl (TypeError ''given event is not a valid string''), s)
       \<and> (change event comparer nxt s =
             (Inl (TypeError ''given event is not a valid string''), s)
          \<or> change event comparer nxt s =
             (Inl (TypeError ''comparer should be a function''), s))
       \<and> fire event data s = (Inl (TypeError ''given event is not a valid string''), s)
       \<and> fst (off name s) = Inr ()"
  using assms
  by (simp add: observe_invalid on_def once_def latest_def change_def fire_def off_def Let_def)

theorem invalid_name_rejected_witness:
  "observe (JNum 0) init = (Inl (TypeError ''given event is not a valid string''), init)
   \<and> on (JStr []) (Some 0) init = (Inl (TypeError ''given event is not a valid string''), init)
   \<and> fire JUndefined (JNum 1) init = (Inl (TypeError ''given event is not a valid string''), init)
   \<and> fst (off ''a'' init) = Inr ()"
proof -
  have a: "isInvalidString (JNum 0)" and b: "isInvalidString (JStr [])"
    and c: "isInvalidString JUndefined"
    by (simp_all add: isInvalidString_def)
  show ?thesis
    using invalid_name_rejected [OF a, of init]
      invalid_name_rejected [OF b, of init "Some 0"]
      invalid_name_rejected [OF c, of init _ _ "JNum 1" "''a''"]
    by simp
qed

text \<open>C3 as stated fails for \<^verbatim>\<open>off\<close>: \<^verbatim>\<open>off('')\<close> on the fresh module returns
  normally.\<close>

theorem off_empty_name_counterexample:
  "isInvalidString (JStr []) \<and> off [] init = (Inr (), init)"
  by (simp add: isInvalidString_def off_def init_def)

text \<open>
  C9, as amended. \<^verbatim>\<open>change\<close> throws \<^verbatim>\<open>TypeError('comparer should be a function')\<close>
  exactly when the comparer is truthy and not a function: \<^verbatim>\<open>comparer || _defaultComparer\<close>
  replaces every falsy value by the default before the check. (For an inherited name
  \<^verbatim>\<open>change\<close> throws another \<^verbatim>\<open>TypeError\<close>, after the check.)
\<close>

theorem change_comparer_check:
  "fst (change event comparer nxt s) = Inl (TypeError ''comparer should be a function'')
     \<longleftrightarrow> truthy_arg comparer \<and> isNotFunction comparer"
  by (auto simp add: change_def Let_def isNotFunction_def observe_def
      split: prod.splits sum.splits option.splits object.splits)

theorem change_comparer_check_witness:
  "fst (change (JStr ''a'') (Value (JObj 0)) None init) =
     Inl (TypeError ''comparer should be a function'')
   \<and> fst (change (JStr ''a'') (Value JNull) None init) \<noteq>
     Inl (TypeError ''comparer should be a function'')"
  using change_comparer_check [of "JStr ''a''" "Value (JObj 0)" None init]
    change_comparer_check [of "JStr ''a''" "Value JNull" None init]
  by (simp add: isNotFunction_def)

text \<open>C9 as stated fails for a falsy comparer: \<^verbatim>\<open>change('a', 0)\<close> on the fresh module
  returns the change stream of the first topic.\<close>

theorem change_falsy_comparer_counterexample:
  "isNotFunction (Value (JNum 0))
   \<and> fst (change (JStr ''a'') (Value (JNum 0)) None init) = Inr (Changes 0)"
  by (simp add: isNotFunction_def change_def observe_def topic_def wrap_subscribe_def init_def
      inherited_def)

section \<open>What each operation changes\<close>

lemma registerSubscription_fst [simp]: "fst (registerSubscription e h s) = h"
  by (simp add: registerSubscription_def split: option.splits)

lemma registerSubscription_frame [simp]:
  "eventManagerCore (snd (registerSubscription e h s)) = eventManagerCore s"
  "streams (snd (registerSubscription e h s)) = streams s"
  "observables (snd (registerSubscription e h s)) = observables s"
  "latest_objects (snd (registerSubscription e h s)) = latest_objects s"
  "latestEventData (snd (registerSubscription e h s)) = latestEventData s"
  "immediates (snd (registerSubscription e h s)) = immediates s"
  "calls (snd (registerSubscription e h s)) = calls s"
  "callbacks (snd (registerSubscription e h s)) = callbacks s"
  "prototype_written (snd (registerSubscription e h s)) = prototype_written s"
  by (simp_all add: registerSubscription_def split: option.splits)

lemma registered_register [simp]:
  "registered (snd (registerSubscription e h s)) n =
     (if n = e then registered s e @ [h] else registered s n)"
  by (simp add: registerSubscription_def registered_def update_conv' split: option.splits)

lemma keys_register [simp]:
  "fst ` set (subscriptions (snd (registerSubscription e h s))) = insert e (fst ` set (subscriptions s))"
  by (simp add: registerSubscription_def dom_update split: option.splits)

lemma rx_subscribe_simps [simp]:
  "fst (rx_subscribe e oper nxt s) = length (eventManagerCore s)"
  "eventManagerCore (snd (rx_subscribe e oper nxt s)) = eventManagerCore s @
      [\<lparr>sub_event = e, sub_operator = oper, sub_next = nxt, sub_closed = False\<rparr>]"
  "streams (snd (rx_subscribe e oper nxt s)) = streams s"
  "observables (snd (rx_subscribe e oper nxt s)) = observables s"
  "subscriptions (snd (rx_subscribe e oper nxt s)) = subscriptions s"
  "latest_objects (snd (rx_subscribe e oper nxt s)) = latest_objects s"
  "latestEventData (snd (rx_subscribe e oper nxt s)) = latestEventData s"
  "immediates (snd (rx_subscribe e oper nxt s)) = immediates s"
  "calls (snd (rx_subscribe e oper nxt s)) = calls s"
  "callbacks (snd (rx_subscribe e oper nxt s)) = callbacks s"
  "prototype_written (snd (rx_subscribe e oper nxt s)) = prototype_written s"
  by (simp_all add: rx_subscribe_def)

lemma registered_rx [simp]: "registered (snd (rx_subscribe e oper nxt s)) n = registered s n"
  by (simp add: registered_def)

lemma subscribe_wrapped_fst [simp]:
  "fst (subscribe_wrapped k e nxt s) = length (eventManagerCore s)"
  by (induction k) (simp_all add: split_beta)

lemma subscribe_wrapped_frame [simp]:
  "eventManagerCore (snd (subscribe_wrapped k e nxt s)) = eventManagerCore s @
      [\<lparr>sub_event = e, sub_operator = Direct, sub_next = nxt, sub_closed = False\<rparr>]"
  "streams (snd (subscribe_wrapped k e nxt s)) = streams s"
  "observables (snd (subscribe_wrapped k e nxt s)) = observables s"
  "latest_objects (snd (subscribe_wrapped k e nxt s)) = latest_objects s"
  "latestEventData (snd (subscribe_wrapped k e nxt s)) = latestEventData s"
  "immediates (snd (subscribe_wrapped k e nxt s)) = immediates s"
  "calls (snd (subscribe_wrapped k e nxt s)) = calls s"
  "callbacks (snd (subscribe_wrapped k e nxt s)) = callbacks s"
  "prototype_written (snd (subscribe_wrapped k e nxt s)) = prototype_written s"
  by (induction k) (simp_all add: split_beta)

lemma registered_subscribe_wrapped [simp]:
  "registered (snd (subscribe_wrapped k e nxt s)) n =
     (if n = e then registered s e @ replicate k (length (eventManagerCore s)) else registered s n)"
  by (induction k) (auto simp add: split_beta replicate_append_same)

lemma keys_subscribe_wrapped [simp]:
  "fst ` set (subscriptions (snd (subscribe_wrapped k e nxt s))) =
     (if k = 0 then fst ` set (subscriptions s) else insert e (fst ` set (subscriptions s)))"
  by (induction k) (auto simp add: split_beta)

lemma topic_frame [simp]:
  "eventManagerCore (snd (topic n s)) = eventManagerCore s"
  "subscriptions (snd (topic n s)) = subscriptions s"
  "latest_objects (snd (topic n s)) = latest_objects s"
  "latestEventData (snd (topic n s)) = latestEventData s"
  "immediates (snd (topic n s)) = immediates s"
  "calls (snd (topic n s)) = calls s"
  "callbacks (snd (topic n s)) = callbacks s"
  "prototype_written (snd (topic n s)) = prototype_written s"
  by (simp_all add: topic_def split: option.splits)

lemma wrap_subscribe_frame [simp]:
  "eventManagerCore (wrap_subscribe ob s) = eventManagerCore s"
  "subscriptions (wrap_subscribe ob s) = subscriptions s"
  "observables (wrap_subscribe ob s) = observables s"
  "latest_objects (wrap_subscribe ob s) = latest_objects s"
  "latestEventData (wrap_subscribe ob s) = latestEventData s"
  "immediates (wrap_subscribe ob s) = immediates s"
  "calls (wrap_subscribe ob s) = calls s"
  "callbacks (wrap_subscribe ob s) = callbacks s"
  "length (streams (wrap_subscribe ob s)) = length (streams s)"
  by (simp_all add: wrap_subscribe_def split: object.splits)

text \<open>A name that is not inherited has a topic stream; an inherited name has none,
  as long as the hash has no such key itself.\<close>

lemma topic_own: "\<not> inherited n \<Longrightarrow> \<exists>a. fst (topic n s) = Topic a"
  by (simp add: topic_def split: option.splits)

lemma topic_inherited:
  "inherited n \<Longrightarrow> observables s n = None \<Longrightarrow> topic n s = (Inherited n, s)"
  by (simp add: topic_def)

lemma topic_cases:
  "(\<exists>a. fst (topic n s) = Topic a) \<or> topic n s = (Inherited n, s)"
  by (simp add: topic_def split: option.splits)

lemma observe_valid:
  "n \<noteq> [] \<Longrightarrow> observe (JStr n) s = (Inr (fst (topic n s)), wrap_subscribe (fst (topic n s)) (snd (topic n s)))"
  by (simp add: observe_def split_beta)

lemma observe_frame [simp]:
  "eventManagerCore (snd (observe e s)) = eventManagerCore s"
  "subscriptions (snd (observe e s)) = subscriptions s"
  "latest_objects (snd (observe e s)) = latest_objects s"
  "latestEventData (snd (observe e s)) = latestEventData s"
  "immediates (snd (observe e s)) = immediates s"
  "calls (snd (observe e s)) = calls s"
  "callbacks (snd (observe e s)) = callbacks s"
  by (simp_all add: observe_def split_beta)

lemma registered_observe [simp]: "registered (snd (observe e s)) n = registered s n"
  by (simp add: registered_def)

lemma inv_streamsD:
  "inv_streams s \<Longrightarrow> observables s n = Some a \<Longrightarrow> obs_event (streams s ! a) = n"
  by (simp add: inv_streams_def)

lemma inv_streams_bound:
  "inv_streams s \<Longrightarrow> observables s n = Some a \<Longrightarrow> a < length (streams s)"
  by (simp add: inv_streams_def)

lemma wrappers_observe:
  assumes "inv_streams s" "n \<noteq> []" "\<not> inherited n"
  shows "wrappers (snd (observe (JStr n) s)) m = (if m = n then Suc (wrappers s n) else wrappers s m)"
proof (cases "observables s n")
  case None
  show ?thesis
  proof (cases "observables s m")
    case None
    with \<open>observables s n = None\<close> assms(2,3) show ?thesis
      by (simp add: observe_valid wrappers_def topic_def wrap_subscribe_def)
  next
    case (Some b)
    with inv_streams_bound [OF assms(1) Some] \<open>observables s n = None\<close> assms(2,3) show ?thesis
      by (auto simp add: observe_valid wrappers_def topic_def wrap_subscribe_def nth_append)
  qed
next
  case (Some a)
  note a = inv_streams_bound [OF assms(1) Some] inv_streamsD [OF assms(1) Some]
  show ?thesis
  proof (cases "observables s m")
    case None
    with Some a assms(2) show ?thesis
      by (auto simp add: observe_valid wrappers_def topic_def wrap_subscribe_def)
  next
    case (Some b)
    with inv_streamsD [OF assms(1) Some] \<open>observables s n = Some a\<close> a assms(2) show ?thesis
      by (auto simp add: observe_valid wrappers_def topic_def wrap_subscribe_def nth_list_update)
  qed
qed

lemma observe_stream:
  assumes "inv_streams s" "n \<noteq> []" "\<not> inherited n"
  shows "\<exists>a. fst (observe (JStr n) s) = Inr (Topic a) \<and> a < length (streams (snd (observe (JStr n) s)))
      \<and> obs_event (streams (snd (observe (JStr n) s)) ! a) = n
      \<and> obs_wrappers (streams (snd (observe (JStr n) s)) ! a) = Suc (wrappers s n)
      \<and> observables (snd (observe (JStr n) s)) n = Some a
      \<and> (observables s n = None \<or> observables s n = Some a)"
  using assms
  by (auto simp add: observe_valid inv_streams_def topic_def wrap_subscribe_def nth_append
      wrappers_def split: option.splits)

text \<open>Whatever the name: when \<^verbatim>\<open>observe\<close> returns a topic stream, it is one for that
  name.\<close>

lemma observe_Topic:
  assumes "inv_streams s" "observe e s = (Inr (Topic a), s1)"
  shows "\<exists>n. e = JStr n \<and> n \<noteq> [] \<and> a < length (streams s1) \<and> obs_event (streams s1 ! a) = n
      \<and> obs_wrappers (streams s1 ! a) = Suc (wrappers s n)"
proof (cases "isInvalidString e")
  case True
  with assms(2) show ?thesis by (simp add: observe_invalid)
next
  case False
  then obtain n where n: "e = JStr n" "n \<noteq> []" using valid_name by blast
  with assms show ?thesis
    by (auto simp add: observe_valid inv_streams_def topic_def wrap_subscribe_def nth_append
        wrappers_def split: option.splits if_splits)
qed

lemma observe_Inherited:
  assumes "observe e s = (Inr (Inherited k), s1)"
  shows "e = JStr k \<and> inherited k
      \<and> s1 = (if k = ''__proto__'' then s\<lparr>prototype_written := True\<rparr> else s)"
proof (cases "isInvalidString e")
  case True
  with assms show ?thesis by (simp add: observe_invalid)
next
  case False
  then obtain n where n: "e = JStr n" "n \<noteq> []" using valid_name by blast
  with assms show ?thesis
    by (auto simp add: observe_valid topic_def wrap_subscribe_def split: option.splits if_splits)
qed

lemma inv_streams_observe: "inv_streams s \<Longrightarrow> inv_streams (snd (observe e s))"
  unfolding inv_streams_def
  by (cases "isInvalidString e")
     (auto simp add: observe_def topic_def wrap_subscribe_def nth_append nth_list_update
      split: option.splits dest!: valid_name intro: less_SucI)

lemma subscribe_Topic [simp]:
  "fst (subscribe (Topic a) nxt s) = Inr (length (eventManagerCore s))"
  "eventManagerCore (snd (subscribe (Topic a) nxt s)) = eventManagerCore s @
      [\<lparr>sub_event = obs_event (streams s ! a), sub_operator = Direct, sub_next = nxt, sub_closed = False\<rparr>]"
  "registered (snd (subscribe (Topic a) nxt s)) n =
     (if n = obs_event (streams s ! a)
      then registered s n @ replicate (obs_wrappers (streams s ! a)) (length (eventManagerCore s))
      else registered s n)"
  by (simp_all add: subscribe_def split_beta)

lemma subscribe_Inherited [simp]:
  "subscribe (Inherited k) nxt s = (Inl (TypeError ''Cannot read property call of undefined''), s)"
  by (simp add: subscribe_def)

lemma subscribe_frame [simp]:
  "streams (snd (subscribe ob nxt s)) = streams s"
  "observables (snd (subscribe ob nxt s)) = observables s"
  "latest_objects (snd (subscribe ob nxt s)) = latest_objects s"
  "latestEventData (snd (subscribe ob nxt s)) = latestEventData s"
  "immediates (snd (subscribe ob nxt s)) = immediates s"
  "calls (snd (subscribe ob nxt s)) = calls s"
  "callbacks (snd (subscribe ob nxt s)) = callbacks s"
  "prototype_written (snd (subscribe ob nxt s)) = prototype_written s"
  by (simp_all add: subscribe_def split_beta split: object.splits)

lemma on_invalid:
  "isInvalidString e \<Longrightarrow> on e nxt s = (Inl (TypeError ''given event is not a valid string''), s)"
  by (simp add: on_def observe_invalid)

lemma once_invalid:
  "isInvalidString e \<Longrightarrow> once e nxt s = (Inl (TypeError ''given event is not a valid string''), s)"
  by (simp add: once_def observe_invalid)

lemma latest_invalid:
  "isInvalidString e \<Longrightarrow> latest e nxt s = (Inl (TypeError ''given event is not a valid string''), s)"
  by (simp add: latest_def observe_invalid)

lemma same_listeners_refl [simp]: "same_listeners s s"
  by (simp add: same_listeners_def)

lemma same_listeners_observe: "same_listeners s (snd (observe e s))"
  by (simp add: same_listeners_def)

lemma registered_cong: "subscriptions s' = subscriptions s \<Longrightarrow> registered s' m = registered s m"
  by (simp add: registered_def)

lemma wrappers_cong:
  "streams s' = streams s \<Longrightarrow> observables s' = observables s \<Longrightarrow> wrappers s' m = wrappers s m"
  by (simp add: wrappers_def split: option.splits)

text \<open>The three outcomes of \<^verbatim>\<open>observe\<close>.\<close>

lemma observe_outcome:
  assumes "inv_streams s"
  shows "observe e s = (Inl (TypeError ''given event is not a valid string''), s)
    \<or> (\<exists>k s1. observe e s = (Inr (Inherited k), s1) \<and> e = JStr k \<and> inherited k
          \<and> same_listeners s s1)
    \<or> (\<exists>n a s1. e = JStr n \<and> n \<noteq> [] \<and> observe e s = (Inr (Topic a), s1)
          \<and> obs_event (streams s1 ! a) = n
          \<and> obs_wrappers (streams s1 ! a) = Suc (wrappers s n) \<and> same_listeners s s1)"
proof (cases "isInvalidString e")
  case True
  then show ?thesis by (simp add: observe_invalid)
next
  case False
  obtain r s1 where o: "observe e s = (r, s1)" by force
  with False obtain ob where r: "r = Inr ob"
    by (auto simp add: observe_def split_beta)
  have sl: "same_listeners s s1"
    using same_listeners_observe [of s e] by (simp add: o)
  show ?thesis
  proof (cases ob)
    case (Topic a)
    with observe_Topic [OF assms, of e a s1] o r sl show ?thesis by auto
  next
    case (Inherited k)
    with observe_Inherited [of e s k s1] o r sl show ?thesis by auto
  qed
qed

lemma observe_own:
  assumes "inv_streams s" "n \<noteq> []" "\<not> inherited n"
  shows "\<exists>a s1. observe (JStr n) s = (Inr (Topic a), s1)
          \<and> obs_event (streams s1 ! a) = n
          \<and> obs_wrappers (streams s1 ! a) = Suc (wrappers s n) \<and> same_listeners s s1"
  using observe_outcome [OF assms(1), of "JStr n"] assms(2,3)
  by (auto simp add: observe_valid)

lemma on_frame [simp]:
  "streams (snd (on e nxt s)) = streams (snd (observe e s))"
  "observables (snd (on e nxt s)) = observables (snd (observe e s))"
  "latest_objects (snd (on e nxt s)) = latest_objects s"
  "latestEventData (snd (on e nxt s)) = latestEventData s"
  "immediates (snd (on e nxt s)) = immediates s"
  "calls (snd (on e nxt s)) = calls s"
  "callbacks (snd (on e nxt s)) = callbacks s"
proof -
  obtain r s1 where o: "observe e s = (r, s1)" by force
  have f: "latest_objects s1 = latest_objects s" "latestEventData s1 = latestEventData s"
    "immediates s1 = immediates s" "calls s1 = calls s" "callbacks s1 = callbacks s"
    using observe_frame [of e s] by (simp_all add: o)
  have g: "streams (snd (subscribe ob nxt s1)) = streams s1"
    "observables (snd (subscribe ob nxt s1)) = observables s1"
    "latest_objects (snd (subscribe ob nxt s1)) = latest_objects s1"
    "latestEventData (snd (subscribe ob nxt s1)) = latestEventData s1"
    "immediates (snd (subscribe ob nxt s1)) = immediates s1"
    "calls (snd (subscribe ob nxt s1)) = calls s1"
    "callbacks (snd (subscribe ob nxt s1)) = callbacks s1" for ob
    by simp_all
  show "streams (snd (on e nxt s)) = streams (snd (observe e s))"
    "observables (snd (on e nxt s)) = observables (snd (observe e s))"
    "latest_objects (snd (on e nxt s)) = latest_objects s"
    "latestEventData (snd (on e nxt s)) = latestEventData s"
    "immediates (snd (on e nxt s)) = immediates s"
    "calls (snd (on e nxt s)) = calls s"
    "callbacks (snd (on e nxt s)) = callbacks s"
    using g by (auto simp add: on_def o f split_beta split: sum.splits prod.splits)
qed

lemma once_frame [simp]:
  "streams (snd (once e nxt s)) = streams (snd (observe e s))"
  "observables (snd (once e nxt s)) = observables (snd (observe e s))"
  "latest_objects (snd (once e nxt s)) = latest_objects s"
  "latestEventData (snd (once e nxt s)) = latestEventData s"
  "immediates (snd (once e nxt s)) = immediates s"
  "calls (snd (once e nxt s)) = calls s"
  "callbacks (snd (once e nxt s)) = callbacks s"
proof -
  obtain r s1 where o: "observe e s = (r, s1)" by force
  have f: "latest_objects s1 = latest_objects s" "latestEventData s1 = latestEventData s"
    "immediates s1 = immediates s" "calls s1 = calls s" "callbacks s1 = callbacks s"
    using observe_frame [of e s] by (simp_all add: o)
  show "streams (snd (once e nxt s)) = streams (snd (observe e s))"
    "observables (snd (once e nxt s)) = observables (snd (observe e s))"
    "latest_objects (snd (once e nxt s)) = latest_objects s"
    "latestEventData (snd (once e nxt s)) = latestEventData s"
    "immediates (snd (once e nxt s)) = immediates s"
    "calls (snd (once e nxt s)) = calls s"
    "callbacks (snd (once e nxt s)) = callbacks s"
    by (auto simp add: once_def o f split_beta split: sum.splits prod.splits object.splits)
qed

lemma latest_frame [simp]:
  "streams (snd (latest e nxt s)) = streams (snd (observe e s))"
  "observables (snd (latest e nxt s)) = observables (snd (observe e s))"
  "latest_objects (snd (latest e nxt s)) = latest_objects s"
  "latestEventData (snd (latest e nxt s)) = latestEventData s"
  "calls (snd (latest e nxt s)) = calls s"
  "callbacks (snd (latest e nxt s)) = callbacks s"
proof -
  obtain r s1 where o: "observe e s = (r, s1)" by force
  have f: "latest_objects s1 = latest_objects s" "latestEventData s1 = latestEventData s"
    "calls s1 = calls s" "callbacks s1 = callbacks s"
    using observe_frame [of e s] by (simp_all add: o)
  have g: "streams (snd (subscribe ob nxt' s1)) = streams s1"
    "observables (snd (subscribe ob nxt' s1)) = observables s1"
    "latest_objects (snd (subscribe ob nxt' s1)) = latest_objects s1"
    "latestEventData (snd (subscribe ob nxt' s1)) = latestEventData s1"
    "calls (snd (subscribe ob nxt' s1)) = calls s1"
    "callbacks (snd (subscribe ob nxt' s1)) = callbacks s1" for ob nxt'
    by simp_all
  show "streams (snd (latest e nxt s)) = streams (snd (observe e s))"
    "observables (snd (latest e nxt s)) = observables (snd (observe e s))"
    "latest_objects (snd (latest e nxt s)) = latest_objects s"
    "latestEventData (snd (latest e nxt s)) = latestEventData s"
    "calls (snd (latest e nxt s)) = calls s"
    "callbacks (snd (latest e nxt s)) = callbacks s"
    using g
    by (auto simp add: latest_def o f split_beta Let_def
        split: sum.splits prod.splits option.splits)
qed

lemma change_frame [simp]:
  "latest_objects (snd (change e c nxt s)) = latest_objects s"
  "latestEventData (snd (change e c nxt s)) = latestEventData s"
  "immediates (snd (change e c nxt s)) = immediates s"
  "calls (snd (change e c nxt s)) = calls s"
  "callbacks (snd (change e c nxt s)) = callbacks s"
proof -
  obtain r s1 where o: "observe e s = (r, s1)" by force
  have f: "latest_objects s1 = latest_objects s" "latestEventData s1 = latestEventData s"
    "immediates s1 = immediates s" "calls s1 = calls s" "callbacks s1 = callbacks s"
    using observe_frame [of e s] by (simp_all add: o)
  show "latest_objects (snd (change e c nxt s)) = latest_objects s"
    "latestEventData (snd (change e c nxt s)) = latestEventData s"
    "immediates (snd (change e c nxt s)) = immediates s"
    "calls (snd (change e c nxt s)) = calls s"
    "callbacks (snd (change e c nxt s)) = callbacks s"
    by (auto simp add: change_def o f split_beta Let_def
        split: sum.splits prod.splits option.splits object.splits)
qed

lemma change_streams:
  "(streams (snd (change e c nxt s)) = streams (snd (observe e s))
    \<and> observables (snd (change e c nxt s)) = observables (snd (observe e s)))
   \<or> snd (change e c nxt s) = s"
  by (cases "observe e s")
     (auto simp add: change_def split_beta Let_def
      split: sum.splits prod.splits option.splits object.splits)

lemma on_effect:
  assumes "inv_streams s" "n \<noteq> []" "\<not> inherited n"
  shows "fst (on (JStr n) nxt s) = Inr (length (eventManagerCore s))"
    and "eventManagerCore (snd (on (JStr n) nxt s)) = eventManagerCore s @
          [\<lparr>sub_event = n, sub_operator = Direct, sub_next = nxt, sub_closed = False\<rparr>]"
    and "registered (snd (on (JStr n) nxt s)) m =
          (if m = n
           then registered s n @ replicate (Suc (Suc (wrappers s n))) (length (eventManagerCore s))
           else registered s m)"
proof -
  from observe_own [OF assms] obtain a s1 where s1: "observe (JStr n) s = (Inr (Topic a), s1)"
    and ev: "obs_event (streams s1 ! a) = n"
    and k: "obs_wrappers (streams s1 ! a) = Suc (wrappers s n)"
    and sl: "same_listeners s s1"
    by blast
  from sl have core: "eventManagerCore s1 = eventManagerCore s"
    and subs: "subscriptions s1 = subscriptions s"
    by (simp_all add: same_listeners_def)
  note reg = registered_cong [OF subs]
  show "fst (on (JStr n) nxt s) = Inr (length (eventManagerCore s))"
    by (simp add: on_def s1 split_beta core subscribe_def)
  show "eventManagerCore (snd (on (JStr n) nxt s)) = eventManagerCore s @
          [\<lparr>sub_event = n, sub_operator = Direct, sub_next = nxt, sub_closed = False\<rparr>]"
    by (simp add: on_def s1 split_beta core subscribe_def ev)
  show "registered (snd (on (JStr n) nxt s)) m =
          (if m = n
           then registered s n @ replicate (Suc (Suc (wrappers s n))) (length (eventManagerCore s))
           else registered s m)"
    using ev k
    by (simp add: on_def s1 split_beta core reg subscribe_def replicate_append_same)
qed

lemma once_effect:
  assumes "inv_streams s" "n \<noteq> []" "\<not> inherited n"
  shows "fst (once (JStr n) nxt s) = Inr (length (eventManagerCore s))"
    and "eventManagerCore (snd (once (JStr n) nxt s)) = eventManagerCore s @
          [\<lparr>sub_event = n, sub_operator = Take 1 0, sub_next = nxt, sub_closed = False\<rparr>]"
    and "registered (snd (once (JStr n) nxt s)) m =
          (if m = n then registered s n @ [length (eventManagerCore s)] else registered s m)"
proof -
  from observe_own [OF assms] obtain a s1 where s1: "observe (JStr n) s = (Inr (Topic a), s1)"
    and ev: "obs_event (streams s1 ! a) = n"
    and sl: "same_listeners s s1"
    by blast
  from sl have core: "eventManagerCore s1 = eventManagerCore s"
    and subs: "subscriptions s1 = subscriptions s"
    by (simp_all add: same_listeners_def)
  note reg = registered_cong [OF subs]
  show "fst (once (JStr n) nxt s) = Inr (length (eventManagerCore s))"
    by (simp add: once_def s1 split_beta core)
  show "eventManagerCore (snd (once (JStr n) nxt s)) = eventManagerCore s @
          [\<lparr>sub_event = n, sub_operator = Take 1 0, sub_next = nxt, sub_closed = False\<rparr>]"
    by (simp add: once_def s1 split_beta core ev)
  show "registered (snd (once (JStr n) nxt s)) m =
          (if m = n then registered s n @ [length (eventManagerCore s)] else registered s m)"
    by (simp add: once_def s1 split_beta core reg)
qed

lemma change_effect:
  assumes "inv_streams s" "n \<noteq> []" "\<not> inherited n" "\<not> (truthy_arg c \<and> isNotFunction c)"
  shows "fst (change (JStr n) c (Some cb) s) = Inr (Subscription (length (eventManagerCore s)))"
    and "eventManagerCore (snd (change (JStr n) c (Some cb) s)) = eventManagerCore s @
          [\<lparr>sub_event = n, sub_operator = DistinctUntilChanged (\<lambda>x y. keySelector x) None,
            sub_next = Some cb, sub_closed = False\<rparr>]"
    and "registered (snd (change (JStr n) c (Some cb) s)) m =
          (if m = n then registered s n @ [length (eventManagerCore s)] else registered s m)"
proof -
  from observe_own [OF assms(1-3)] obtain a s1 where s1: "observe (JStr n) s = (Inr (Topic a), s1)"
    and ev: "obs_event (streams s1 ! a) = n"
    and sl: "same_listeners s s1"
    by blast
  from sl have core: "eventManagerCore s1 = eventManagerCore s"
    and subs: "subscriptions s1 = subscriptions s"
    by (simp_all add: same_listeners_def)
  note reg = registered_cong [OF subs]
  have ok: "\<not> isNotFunction (if truthy_arg c then c else Func defaultComparer)"
    using assms(4) by (simp add: isNotFunction_def)
  show "fst (change (JStr n) c (Some cb) s) = Inr (Subscription (length (eventManagerCore s)))"
    using ok by (simp add: change_def Let_def s1 split_beta core)
  show "eventManagerCore (snd (change (JStr n) c (Some cb) s)) = eventManagerCore s @
          [\<lparr>sub_event = n, sub_operator = DistinctUntilChanged (\<lambda>x y. keySelector x) None,
            sub_next = Some cb, sub_closed = False\<rparr>]"
    using ok by (simp add: change_def Let_def s1 split_beta core ev)
  show "registered (snd (change (JStr n) c (Some cb) s)) m =
          (if m = n then registered s n @ [length (eventManagerCore s)] else registered s m)"
    using ok by (simp add: change_def Let_def s1 split_beta core reg)
qed

lemma registered_immediates_update [simp]: "registered (s\<lparr>immediates := ts\<rparr>) = registered s"
  by (rule ext) (simp add: registered_def)

lemma latest_effect:
  assumes "inv_streams s" "n \<noteq> []" "\<not> inherited n"
  shows "fst (latest (JStr n) (Some cb) s) = Inr (Subscription (length (eventManagerCore s)))"
    and "eventManagerCore (snd (latest (JStr n) (Some cb) s)) = eventManagerCore s @
          [\<lparr>sub_event = n, sub_operator = Direct, sub_next = Some cb, sub_closed = False\<rparr>]"
    and "registered (snd (latest (JStr n) (Some cb) s)) m =
          (if m = n
           then registered s n @ replicate (Suc (Suc (wrappers s n))) (length (eventManagerCore s))
           else registered s m)"
    and "immediates (snd (latest (JStr n) (Some cb) s)) =
          immediates s @ scheduled s n (length (eventManagerCore s))"
proof -
  from observe_own [OF assms] obtain a s1 where s1: "observe (JStr n) s = (Inr (Topic a), s1)"
    and ev: "obs_event (streams s1 ! a) = n"
    and k: "obs_wrappers (streams s1 ! a) = Suc (wrappers s n)"
    and sl: "same_listeners s s1"
    by blast
  from sl have core: "eventManagerCore s1 = eventManagerCore s"
    and subs: "subscriptions s1 = subscriptions s"
    and lo: "latest_objects s1 = latest_objects s"
    and ld: "latestEventData s1 = latestEventData s"
    and im: "immediates s1 = immediates s"
    by (simp_all add: same_listeners_def)
  note reg = registered_cong [OF subs]
  show "fst (latest (JStr n) (Some cb) s) = Inr (Subscription (length (eventManagerCore s)))"
    by (simp add: latest_def s1 split_beta core Let_def subscribe_def)
  show "eventManagerCore (snd (latest (JStr n) (Some cb) s)) = eventManagerCore s @
          [\<lparr>sub_event = n, sub_operator = Direct, sub_next = Some cb, sub_closed = False\<rparr>]"
    by (simp add: latest_def s1 split_beta core ev Let_def subscribe_def split: option.splits)
  show "registered (snd (latest (JStr n) (Some cb) s)) m =
          (if m = n
           then registered s n @ replicate (Suc (Suc (wrappers s n))) (length (eventManagerCore s))
           else registered s m)"
    by (simp add: latest_def s1 split_beta core ev k reg Let_def subscribe_def
        replicate_append_same split: option.splits)
  show "immediates (snd (latest (JStr n) (Some cb) s)) =
          immediates s @ scheduled s n (length (eventManagerCore s))"
    by (simp add: latest_def s1 split_beta core lo ld im Let_def scheduled_def subscribe_def
        split: option.splits)
qed

text \<open>On an inherited name the subscribing operations throw, and nothing is
  subscribed or registered.\<close>

lemma inv_streams_own: "inv_streams s \<Longrightarrow> inherited k \<Longrightarrow> observables s k = None"
  unfolding inv_streams_def by (cases "observables s k") auto

lemma on_inherited:
  assumes "inv_streams s" "inherited k"
  shows "on (JStr k) nxt s =
           (Inl (TypeError ''Cannot read property call of undefined''), snd (observe (JStr k) s))"
    and "once (JStr k) nxt s =
           (Inl (TypeError ''take is not a function''), snd (observe (JStr k) s))"
    and "latest (JStr k) (Some cb) s =
           (Inl (TypeError ''Cannot read property call of undefined''), snd (observe (JStr k) s))"
    and "latest (JStr k) None s = (Inr (Stream (Inherited k)), snd (observe (JStr k) s))"
    and "\<not> (truthy_arg c \<and> isNotFunction c) \<Longrightarrow>
         change (JStr k) c nxt s =
           (Inl (TypeError ''distinctUntilChanged is not a function''), snd (observe (JStr k) s))"
    and "fst (observe (JStr k) s) = Inr (Inherited k)"
proof -
  have k: "k \<noteq> []" using assms(2) by (auto simp add: inherited_def)
  have o: "observe (JStr k) s = (Inr (Inherited k), wrap_subscribe (Inherited k) s)"
    using assms(2) inv_streams_own [OF assms] by (simp add: observe_valid [OF k] topic_def)
  show "on (JStr k) nxt s =
           (Inl (TypeError ''Cannot read property call of undefined''), snd (observe (JStr k) s))"
    by (simp add: on_def o)
  show "once (JStr k) nxt s =
           (Inl (TypeError ''take is not a function''), snd (observe (JStr k) s))"
    by (simp add: once_def o)
  show "latest (JStr k) (Some cb) s =
           (Inl (TypeError ''Cannot read property call of undefined''), snd (observe (JStr k) s))"
    by (simp add: latest_def o)
  show "latest (JStr k) None s = (Inr (Stream (Inherited k)), snd (observe (JStr k) s))"
    by (simp add: latest_def o)
  show "change (JStr k) c nxt s =
           (Inl (TypeError ''distinctUntilChanged is not a function''), snd (observe (JStr k) s))"
    if "\<not> (truthy_arg c \<and> isNotFunction c)"
    using that by (auto simp add: change_def Let_def o isNotFunction_def)
  show "fst (observe (JStr k) s) = Inr (Inherited k)"
    by (simp add: o)
qed

lemma receive_calls: "fst (snd (receive env e d h sub)) = (if hears e d sub then [(h, d)] else [])"
  by (auto simp add: receive_def hears_def passes_def call_next_def split_beta split: option.splits)

lemma receive_thrown: "snd (snd (receive env e d h sub)) = throwing env e d sub"
  by (auto simp add: receive_def throwing_def hears_def passes_def call_next_def split_beta
      split: option.splits)

lemma receive_sub [simp]:
  "sub_event (fst (receive env e d h sub)) = sub_event sub"
  "sub_next (fst (receive env e d h sub)) = sub_next sub"
  by (simp_all add: receive_def split_beta)

lemma receive_closed: "sub_closed sub \<Longrightarrow> receive env e d h sub = (sub, [], False)"
  by (simp add: receive_def)

lemma receive_stays_closed: "sub_closed sub \<Longrightarrow> sub_closed (fst (receive env e d h sub))"
  by (simp add: receive_def)

lemma operator_next_Direct [simp]: "fst (operator_next oper v) = Direct \<longleftrightarrow> oper = Direct"
  by (cases "(oper, v)" rule: operator_next.cases) auto

lemma receive_Direct [simp]:
  "sub_operator (fst (receive env e d h sub)) = Direct \<longleftrightarrow> sub_operator sub = Direct"
  by (simp add: receive_def split_beta)

lemma reached_0 [simp]: "reached env e d subs 0"
  by (simp add: reached_def)

lemma reached_Suc:
  "reached env e d (sub # subs) (Suc i) \<longleftrightarrow> \<not> throwing env e d sub \<and> reached env e d subs i"
  by (simp add: reached_def All_less_Suc2)

lemma notify_length [simp]: "length (fst (notify env e d h subs)) = length subs"
  by (induction subs arbitrary: h) (simp_all add: split_beta)

lemma notify_nth:
  "i < length subs \<Longrightarrow>
     fst (notify env e d h subs) ! i =
       (if reached env e d subs i then fst (receive env e d (h + i) (subs ! i)) else subs ! i)"
proof (induction subs arbitrary: h i)
  case Nil
  then show ?case by simp
next
  case (Cons sub subs)
  then show ?case
    by (cases i) (simp_all add: split_beta reached_Suc receive_thrown)
qed

lemma notify_calls:
  "fst (snd (notify env e d h subs)) =
     map (\<lambda>i. (h + i, d))
       (filter (\<lambda>i. hears e d (subs ! i) \<and> reached env e d subs i) [0..<length subs])"
proof (induction subs arbitrary: h)
  case Nil
  then show ?case by simp
next
  case (Cons sub subs)
  have "[0..<length (sub # subs)] = 0 # map Suc [0..<length subs]"
    by (simp add: upt_conv_Cons map_Suc_upt del: upt_Suc)
  then show ?case
    by (simp add: split_beta receive_calls receive_thrown Cons.IH filter_map comp_def
        reached_Suc del: upt_Suc)
qed

lemma notify_thrower_None:
  "snd (snd (notify env e d h subs)) = None \<longleftrightarrow> (\<forall>i < length subs. \<not> throwing env e d (subs ! i))"
  by (induction subs arbitrary: h) (auto simp add: split_beta receive_thrown All_less_Suc2)

lemma notify_thrower_Some:
  "snd (snd (notify env e d h subs)) = Some k \<Longrightarrow>
     h \<le> k \<and> k - h < length subs \<and> throwing env e d (subs ! (k - h))
     \<and> reached env e d subs (k - h)"
proof (induction subs arbitrary: h)
  case Nil
  then show ?case by simp
next
  case (Cons sub subs)
  show ?case
  proof (cases "throwing env e d sub")
    case True
    with Cons.prems show ?thesis
      by (simp add: split_beta receive_thrown)
  next
    case False
    with Cons.prems have "snd (snd (notify env e d (Suc h) subs)) = Some k"
      by (simp add: split_beta receive_thrown)
    from Cons.IH [OF this] have ih: "Suc h \<le> k" "k - Suc h < length subs"
      "throwing env e d (subs ! (k - Suc h))" "reached env e d subs (k - Suc h)"
      by simp_all
    from ih(1) have k: "k - h = Suc (k - Suc h)" by simp
    from ih False show ?thesis
      unfolding k by (simp add: reached_Suc)
  qed
qed

lemma fire_invalid:
  "isInvalidString e \<Longrightarrow> fire e d s = (Inl (TypeError ''given event is not a valid string''), s)"
  by (simp add: fire_def)

lemma fire_frame [simp]:
  "streams (snd (fire e d s)) = streams s"
  "observables (snd (fire e d s)) = observables s"
  "subscriptions (snd (fire e d s)) = subscriptions s"
  "immediates (snd (fire e d s)) = immediates s"
  "callbacks (snd (fire e d s)) = callbacks s"
  by (simp_all add: fire_def split_beta Let_def split: option.splits)

lemma registered_fire [simp]: "registered (snd (fire e d s)) n = registered s n"
  by (simp add: registered_def)

lemma fire_effect:
  assumes "n \<noteq> []"
  shows "fst (fire (JStr n) d s) =
           (case snd (snd (notify (callbacks s) n d 0 (eventManagerCore s))) of
              None \<Rightarrow> Inr () | Some h \<Rightarrow> Inl (Thrown h))"
    and "eventManagerCore (snd (fire (JStr n) d s)) =
           fst (notify (callbacks s) n d 0 (eventManagerCore s))"
    and "calls (snd (fire (JStr n) d s)) =
           calls s @ fst (snd (notify (callbacks s) n d 0 (eventManagerCore s)))"
  using assms by (simp_all add: fire_def split_beta Let_def split: option.splits)

lemma fire_core_length [simp]:
  "length (eventManagerCore (snd (fire e d s))) = length (eventManagerCore s)"
  by (cases "isInvalidString e") (auto simp add: fire_invalid fire_effect dest!: valid_name)

lemma fire_nth:
  assumes "n \<noteq> []" "h < length (eventManagerCore s)"
  shows "eventManagerCore (snd (fire (JStr n) d s)) ! h =
     (if reached (callbacks s) n d (eventManagerCore s) h
      then fst (receive (callbacks s) n d h (eventManagerCore s ! h))
      else eventManagerCore s ! h)"
  using assms by (simp add: fire_effect notify_nth)

lemma fire_latest:
  assumes "n \<noteq> []" "\<not> inherited n"
  shows "latestEventData (snd (fire (JStr n) d s)) =
          (latestEventData s)(n \<mapsto> (case latestEventData s n of
                                      None \<Rightarrow> length (latest_objects s) | Some r \<Rightarrow> r))"
    and "latest_objects (snd (fire (JStr n) d s)) =
          (case latestEventData s n of
             None \<Rightarrow> latest_objects s @ [\<lparr>hasValue = True, latest_value = d\<rparr>]
           | Some r \<Rightarrow> (latest_objects s)[r := (latest_objects s ! r)\<lparr>latest_value := d\<rparr>])"
  using assms by (auto simp add: fire_def split_beta Let_def split: option.splits)

lemma fire_latest_inherited:
  assumes "inherited n" "latestEventData s n = None"
  shows "latestEventData (snd (fire (JStr n) d s)) = latestEventData s"
    and "latest_objects (snd (fire (JStr n) d s)) = latest_objects s"
  using assms by (auto simp add: fire_def split_beta Let_def inherited_def)

lemma fire_latest_own:
  assumes "n \<noteq> []" "latestEventData s n = Some r"
  shows "latestEventData (snd (fire (JStr n) d s)) = latestEventData s"
    and "latest_objects (snd (fire (JStr n) d s)) =
           (latest_objects s)[r := (latest_objects s ! r)\<lparr>latest_value := d\<rparr>]"
  using assms by (auto simp add: fire_def split_beta Let_def)

lemma filter_tagged:
  "map snd (filter (\<lambda>c. fst c = h) (map (\<lambda>i. (i, d)) (filter P [0..<k]))) =
     (if h < k \<and> P h then [d] else [])"
  by (induction k) (auto simp add: less_Suc_eq)

lemma received_fire:
  assumes "n \<noteq> []"
  shows "received (snd (fire (JStr n) d s)) h =
     received s h @
       (if h < length (eventManagerCore s) \<and> hears n d (eventManagerCore s ! h)
            \<and> reached (callbacks s) n d (eventManagerCore s) h
        then [d] else [])"
  using filter_tagged [of h d
      "\<lambda>i. hears n d (eventManagerCore s ! i) \<and> reached (callbacks s) n d (eventManagerCore s) i"
      "length (eventManagerCore s)"]
  by (simp add: received_def fire_effect(3) [OF assms] notify_calls)

lemma calls_fire_handles:
  assumes "n \<noteq> []" "c \<in> set (calls (snd (fire (JStr n) d s)))"
  shows "c \<in> set (calls s) \<or> (fst c < length (eventManagerCore s) \<and> snd c = d
            \<and> hears n d (eventManagerCore s ! fst c))"
  using assms by (auto simp add: fire_effect(3) notify_calls)

lemma unsubscribe_frame [simp]:
  "streams (unsubscribe h s) = streams s"
  "observables (unsubscribe h s) = observables s"
  "subscriptions (unsubscribe h s) = subscriptions s"
  "latest_objects (unsubscribe h s) = latest_objects s"
  "latestEventData (unsubscribe h s) = latestEventData s"
  "immediates (unsubscribe h s) = immediates s"
  "calls (unsubscribe h s) = calls s"
  "callbacks (unsubscribe h s) = callbacks s"
  "prototype_written (unsubscribe h s) = prototype_written s"
  "length (eventManagerCore (unsubscribe h s)) = length (eventManagerCore s)"
  by (simp_all add: unsubscribe_def)

lemma unsubscribe_nth:
  "i < length (eventManagerCore s) \<Longrightarrow>
     eventManagerCore (unsubscribe h s) ! i =
       (if i = h then (eventManagerCore s ! i)\<lparr>sub_closed := True\<rparr> else eventManagerCore s ! i)"
  by (simp add: unsubscribe_def nth_list_update)

lemma unsubscribe_idem: "unsubscribe h (unsubscribe h s) = unsubscribe h s"
  by (simp add: unsubscribe_def)

lemma registered_unsubscribe [simp]: "registered (unsubscribe h s) n = registered s n"
  by (simp add: registered_def)

lemma fold_unsubscribe_frame [simp]:
  "streams (fold unsubscribe hs s) = streams s"
  "observables (fold unsubscribe hs s) = observables s"
  "subscriptions (fold unsubscribe hs s) = subscriptions s"
  "latest_objects (fold unsubscribe hs s) = latest_objects s"
  "latestEventData (fold unsubscribe hs s) = latestEventData s"
  "immediates (fold unsubscribe hs s) = immediates s"
  "calls (fold unsubscribe hs s) = calls s"
  "callbacks (fold unsubscribe hs s) = callbacks s"
  "prototype_written (fold unsubscribe hs s) = prototype_written s"
  "length (eventManagerCore (fold unsubscribe hs s)) = length (eventManagerCore s)"
  by (induction hs arbitrary: s) simp_all

lemma fold_unsubscribe_nth:
  "i < length (eventManagerCore s) \<Longrightarrow>
     eventManagerCore (fold unsubscribe hs s) ! i =
       (if i \<in> set hs then (eventManagerCore s ! i)\<lparr>sub_closed := True\<rparr> else eventManagerCore s ! i)"
  by (induction hs arbitrary: s) (auto simp add: unsubscribe_nth)

lemma off_fst [simp]: "fst (off n s) = Inr ()"
  by (simp add: off_def Let_def)

lemma off_frame [simp]:
  "streams (snd (off n s)) = streams s"
  "observables (snd (off n s)) = observables s"
  "latest_objects (snd (off n s)) = latest_objects s"
  "immediates (snd (off n s)) = immediates s"
  "calls (snd (off n s)) = calls s"
  "callbacks (snd (off n s)) = callbacks s"
  "prototype_written (snd (off n s)) = prototype_written s"
  "length (eventManagerCore (snd (off n s))) = length (eventManagerCore s)"
  "latestEventData (snd (off n s)) = (latestEventData s)(n := None)"
  by (auto simp add: off_def Let_def split: option.splits)

lemma off_core: "eventManagerCore (snd (off n s)) = eventManagerCore (fold unsubscribe (registered s n) s)"
  by (auto simp add: off_def Let_def registered_def split: option.splits)

lemma off_nth:
  "i < length (eventManagerCore s) \<Longrightarrow>
     eventManagerCore (snd (off n s)) ! i =
       (if i \<in> set (registered s n) then (eventManagerCore s ! i)\<lparr>sub_closed := True\<rparr>
        else eventManagerCore s ! i)"
  by (simp add: off_core fold_unsubscribe_nth)

lemma registered_off [simp]:
  "registered (snd (off n s)) m = (if m = n then [] else registered s m)"
  by (auto simp add: off_def Let_def registered_def delete_conv' split: option.splits)

lemma keys_delete: "fst ` set (AList.delete n al) = fst ` set al - {n}"
  by (induction al) auto

lemma keys_off [simp]:
  "fst ` set (subscriptions (snd (off n s))) = fst ` set (subscriptions s) - {n}"
  by (simp add: off_def Let_def keys_delete map_of_eq_None_iff split: option.splits)

lemma fold_off_frame [simp]:
  "streams (fold (\<lambda>event s'. snd (off event s')) ks s) = streams s"
  "observables (fold (\<lambda>event s'. snd (off event s')) ks s) = observables s"
  "latest_objects (fold (\<lambda>event s'. snd (off event s')) ks s) = latest_objects s"
  "immediates (fold (\<lambda>event s'. snd (off event s')) ks s) = immediates s"
  "calls (fold (\<lambda>event s'. snd (off event s')) ks s) = calls s"
  "callbacks (fold (\<lambda>event s'. snd (off event s')) ks s) = callbacks s"
  "prototype_written (fold (\<lambda>event s'. snd (off event s')) ks s) = prototype_written s"
  "length (eventManagerCore (fold (\<lambda>event s'. snd (off event s')) ks s)) = length (eventManagerCore s)"
  by (induction ks arbitrary: s) simp_all

lemma offAll_frame [simp]:
  "fst (offAll s) = Inr ()"
  "streams (snd (offAll s)) = streams s"
  "observables (snd (offAll s)) = observables s"
  "latest_objects (snd (offAll s)) = latest_objects s"
  "immediates (snd (offAll s)) = immediates s"
  "calls (snd (offAll s)) = calls s"
  "callbacks (snd (offAll s)) = callbacks s"
  "prototype_written (snd (offAll s)) = prototype_written s"
  "length (eventManagerCore (snd (offAll s))) = length (eventManagerCore s)"
  by (simp_all add: offAll_def)

lemma fold_off_preserves:
  assumes "\<And>s n. P s \<Longrightarrow> P (snd (off n s))" "P s"
  shows "P (fold (\<lambda>event s'. snd (off event s')) ks s)"
  using assms(2) by (induction ks arbitrary: s) (simp_all add: assms(1))

lemma closed_record [simp]:
  "sub_event (sub\<lparr>sub_closed := b\<rparr>) = sub_event sub"
  "sub_operator (sub\<lparr>sub_closed := b\<rparr>) = sub_operator sub"
  "sub_next (sub\<lparr>sub_closed := b\<rparr>) = sub_next sub"
  by simp_all

lemma closing_twice [simp]: "sub\<lparr>sub_closed := True\<rparr>\<lparr>sub_closed := True\<rparr> = sub\<lparr>sub_closed := True\<rparr>"
  by simp

lemma run_immediate_frame [simp]:
  "streams (fst (run_immediate t s)) = streams s"
  "observables (fst (run_immediate t s)) = observables s"
  "subscriptions (fst (run_immediate t s)) = subscriptions s"
  "latest_objects (fst (run_immediate t s)) = latest_objects s"
  "latestEventData (fst (run_immediate t s)) = latestEventData s"
  "immediates (fst (run_immediate t s)) = immediates s"
  "callbacks (fst (run_immediate t s)) = callbacks s"
  "prototype_written (fst (run_immediate t s)) = prototype_written s"
  "length (eventManagerCore (fst (run_immediate t s))) = length (eventManagerCore s)"
  by (simp_all add: run_immediate_def split_beta)

lemma run_immediate_calls: "calls (fst (run_immediate t s)) = calls s @ replay s t"
  by (simp add: run_immediate_def replay_def split_beta)

lemma run_immediate_thrown:
  "snd (run_immediate t s) \<Longrightarrow> would_throw s t \<and> \<not> sub_closed (eventManagerCore s ! fst t)"
  by (auto simp add: run_immediate_def would_throw_def call_next_def split_beta
      split: if_splits option.splits)

lemma replay_handle: "c \<in> set (replay s t) \<Longrightarrow> fst c = fst t"
  by (auto simp add: replay_def call_next_def split: if_splits option.splits)

lemma replay_closed: "sub_closed (eventManagerCore s ! fst t) \<Longrightarrow> replay s t = []"
  by (simp add: replay_def)

lemma run_immediate_nth:
  "eventManagerCore (fst (run_immediate t s)) ! h = eventManagerCore s ! h
   \<or> (h = fst t \<and> \<not> sub_closed (eventManagerCore s ! h)
      \<and> eventManagerCore (fst (run_immediate t s)) ! h = (eventManagerCore s ! h)\<lparr>sub_closed := True\<rparr>)"
proof -
  consider (other) "h \<noteq> fst t"
    | (closed) "h = fst t" "sub_closed (eventManagerCore s ! h)"
    | (beyond) "h = fst t" "\<not> h < length (eventManagerCore s)"
    | (run) "h = fst t" "\<not> sub_closed (eventManagerCore s ! h)" "h < length (eventManagerCore s)"
    by blast
  then show ?thesis
  proof cases
    case other
    then show ?thesis by (simp add: run_immediate_def split_beta)
  next
    case closed
    then show ?thesis by (simp add: run_immediate_def split_beta)
  next
    case beyond
    then have "(eventManagerCore s)[fst t := x] = eventManagerCore s" for x
      by (simp add: list_update_beyond)
    then show ?thesis by (simp add: run_immediate_def split_beta)
  next
    case run
    then show ?thesis
      by (cases "snd (snd (call_next (callbacks s) h (eventManagerCore s ! h)
                    (latest_value (latest_objects s ! snd t))))")
         (simp_all add: run_immediate_def split_beta)
  qed
qed

lemma run_immediate_other:
  "h \<noteq> fst t \<Longrightarrow> eventManagerCore (fst (run_immediate t s)) ! h = eventManagerCore s ! h"
  using run_immediate_nth [of t s h] by auto

lemma run_immediate_stays_closed:
  "sub_closed (eventManagerCore s ! h) \<Longrightarrow> sub_closed (eventManagerCore (fst (run_immediate t s)) ! h)"
  using run_immediate_nth [of t s h] by auto

lemma run_immediates_frame [simp]:
  "streams (run_immediates ts s) = streams s"
  "observables (run_immediates ts s) = observables s"
  "subscriptions (run_immediates ts s) = subscriptions s"
  "latest_objects (run_immediates ts s) = latest_objects s"
  "latestEventData (run_immediates ts s) = latestEventData s"
  "immediates (run_immediates ts s) = immediates s"
  "callbacks (run_immediates ts s) = callbacks s"
  "prototype_written (run_immediates ts s) = prototype_written s"
  "length (eventManagerCore (run_immediates ts s)) = length (eventManagerCore s)"
  by (induction ts arbitrary: s) (simp_all add: split_beta)

lemma run_immediates_nth:
  "eventManagerCore (run_immediates ts s) ! h = eventManagerCore s ! h
   \<or> eventManagerCore (run_immediates ts s) ! h = (eventManagerCore s ! h)\<lparr>sub_closed := True\<rparr>"
proof (induction ts arbitrary: s)
  case Nil
  then show ?case by simp
next
  case (Cons t ts)
  from Cons.IH [of "fst (run_immediate t s)"] run_immediate_nth [of t s h]
  show ?case by (auto simp add: split_beta)
qed

lemma run_immediates_other:
  "h \<notin> fst ` set ts \<Longrightarrow>
     eventManagerCore (run_immediates ts s) ! h = eventManagerCore s ! h
     \<and> received (run_immediates ts s) h = received s h"
proof (induction ts arbitrary: s)
  case Nil
  then show ?case by simp
next
  case (Cons t ts)
  from Cons.prems have t: "h \<noteq> fst t" and ts: "h \<notin> fst ` set ts" by auto
  have "filter (\<lambda>c. fst c = h) (replay s t) = []"
    using replay_handle [of _ s t] t by (auto simp add: filter_empty_conv)
  then have r: "received (fst (run_immediate t s)) h = received s h"
    by (simp add: received_def run_immediate_calls)
  from Cons.IH [OF ts, of "fst (run_immediate t s)"] r run_immediate_other [OF t, of s]
  show ?case by (simp add: split_beta)
qed

lemma run_immediates_closed:
  "sub_closed (eventManagerCore s ! h) \<Longrightarrow>
     sub_closed (eventManagerCore (run_immediates ts s) ! h)
     \<and> received (run_immediates ts s) h = received s h"
proof (induction ts arbitrary: s)
  case Nil
  then show ?case by simp
next
  case (Cons t ts)
  have "filter (\<lambda>c. fst c = h) (replay s t) = []"
    using replay_handle [of _ s t] replay_closed [of s t] Cons.prems
    by (cases "fst t = h") (auto simp add: filter_empty_conv)
  then have r: "received (fst (run_immediate t s)) h = received s h"
    by (simp add: received_def run_immediate_calls)
  from Cons.IH [OF run_immediate_stays_closed [OF Cons.prems, of t]] r
    run_immediate_stays_closed [OF Cons.prems, of t]
  show ?case by (simp add: split_beta)
qed

lemma run_immediates_handles:
  "c \<in> set (calls (run_immediates ts s)) \<Longrightarrow> c \<in> set (calls s) \<or> fst c \<in> fst ` set ts"
proof (induction ts arbitrary: s)
  case Nil
  then show ?case by simp
next
  case (Cons t ts)
  show ?case
  proof (cases "snd (run_immediate t s)")
    case True
    with Cons.prems replay_handle [of c s t] show ?thesis
      by (auto simp add: split_beta run_immediate_calls)
  next
    case False
    with Cons.prems have "c \<in> set (calls (run_immediates ts (fst (run_immediate t s))))"
      by (simp add: split_beta)
    from Cons.IH [OF this] replay_handle [of c s t] show ?thesis
      by (auto simp add: run_immediate_calls)
  qed
qed

lemma tick_frame [simp]:
  "streams (tick s) = streams s"
  "observables (tick s) = observables s"
  "subscriptions (tick s) = subscriptions s"
  "latest_objects (tick s) = latest_objects s"
  "latestEventData (tick s) = latestEventData s"
  "immediates (tick s) = []"
  "callbacks (tick s) = callbacks s"
  "prototype_written (tick s) = prototype_written s"
  "length (eventManagerCore (tick s)) = length (eventManagerCore s)"
  by (simp_all add: tick_def)

lemma received_immediates_update [simp]: "received (s\<lparr>immediates := ts\<rparr>) = received s"
  by (rule ext) (simp add: received_def)

lemma tick_nth:
  "eventManagerCore (tick s) ! h = eventManagerCore s ! h
   \<or> eventManagerCore (tick s) ! h = (eventManagerCore s ! h)\<lparr>sub_closed := True\<rparr>"
  using run_immediates_nth [of "immediates s" "s\<lparr>immediates := []\<rparr>" h] by (simp add: tick_def)

lemma tick_other:
  "h \<notin> fst ` set (immediates s) \<Longrightarrow>
     eventManagerCore (tick s) ! h = eventManagerCore s ! h \<and> received (tick s) h = received s h"
  using run_immediates_other [of h "immediates s" "s\<lparr>immediates := []\<rparr>"] by (simp add: tick_def)

lemma tick_closed:
  "sub_closed (eventManagerCore s ! h) \<Longrightarrow>
     sub_closed (eventManagerCore (tick s) ! h) \<and> received (tick s) h = received s h"
  using run_immediates_closed [of "s\<lparr>immediates := []\<rparr>" h "immediates s"] by (simp add: tick_def)

lemma tick_handles:
  "c \<in> set (calls (tick s)) \<Longrightarrow> c \<in> set (calls s) \<or> fst c \<in> fst ` set (immediates s)"
  using run_immediates_handles [of c "immediates s" "s\<lparr>immediates := []\<rparr>"] by (simp add: tick_def)

lemma registered_tick [simp]: "registered (tick s) n = registered s n"
  by (simp add: registered_def)

section \<open>The invariants are kept\<close>

lemma inv_reg_subscribed:
  assumes "inv_reg s" "subscribed s s' sub"
  shows "inv_reg s'"
proof -
  from assms(2) obtain k where core: "eventManagerCore s' = eventManagerCore s @ [sub]"
    and reg: "\<And>m. registered s' m =
          (if m = sub_event sub
           then registered s m @ replicate k (length (eventManagerCore s))
           else registered s m)"
    unfolding subscribed_def by blast
  have old: "\<And>n h. h \<in> set (registered s n) \<Longrightarrow>
      h < length (eventManagerCore s) \<and> sub_event (eventManagerCore s ! h) = n"
    using assms(1) by (simp add: inv_reg_def)
  show ?thesis
    unfolding inv_reg_def
  proof (intro allI ballI)
    fix n h assume "h \<in> set (registered s' n)"
    then consider "h \<in> set (registered s n)" | "h = length (eventManagerCore s)" "n = sub_event sub"
      by (auto simp add: reg split: if_splits)
    then show "h < length (eventManagerCore s') \<and> sub_event (eventManagerCore s' ! h) = n"
    proof cases
      case 1
      with old [of h n] show ?thesis by (simp add: core nth_append)
    next
      case 2
      then show ?thesis by (simp add: core)
    qed
  qed
qed

lemma inv_reg_same:
  "inv_reg s \<Longrightarrow> eventManagerCore s' = eventManagerCore s \<Longrightarrow>
     subscriptions s' = subscriptions s \<Longrightarrow> inv_reg s'"
  by (simp add: inv_reg_def registered_def)

text \<open>Subscribers are only ever closed, or changed by what they receive.\<close>

lemma inv_reg_closing:
  assumes "inv_reg s" "subscriptions s' = subscriptions s"
    and "length (eventManagerCore s') = length (eventManagerCore s)"
    and "\<And>h. h < length (eventManagerCore s) \<Longrightarrow>
           sub_event (eventManagerCore s' ! h) = sub_event (eventManagerCore s ! h)"
  shows "inv_reg s'"
  using assms unfolding inv_reg_def registered_def by simp

lemma inv_imm_closing:
  assumes "inv_imm s" "immediates s' = immediates s \<or> immediates s' = []"
    and "length (eventManagerCore s') = length (eventManagerCore s)"
    and "\<And>h. h < length (eventManagerCore s) \<Longrightarrow>
           sub_operator (eventManagerCore s ! h) = Direct \<Longrightarrow>
           sub_operator (eventManagerCore s' ! h) = Direct"
  shows "inv_imm s'"
  unfolding inv_imm_def
proof
  fix t assume "t \<in> set (immediates s')"
  with assms(2) have t: "t \<in> set (immediates s)" by auto
  with assms(1) have "fst t < length (eventManagerCore s)"
    "sub_operator (eventManagerCore s ! fst t) = Direct"
    by (simp_all add: inv_imm_def)
  with assms(3,4) show "fst t < length (eventManagerCore s')
      \<and> sub_operator (eventManagerCore s' ! fst t) = Direct"
    by simp
qed

lemma inv_imm_append:
  "inv_imm s \<Longrightarrow> eventManagerCore s' = eventManagerCore s @ [sub] \<Longrightarrow>
     immediates s' = immediates s \<or>
       (\<exists>r. immediates s' = immediates s @ [(length (eventManagerCore s), r)] \<and> sub_operator sub = Direct) \<Longrightarrow>
     inv_imm s'"
  unfolding inv_imm_def
  by (auto simp add: nth_append intro: less_SucI)

lemma received_fresh:
  "\<forall>c \<in> set (calls s). fst c < length (eventManagerCore s) \<Longrightarrow>
     received s (length (eventManagerCore s)) = []"
  by (auto simp add: received_def filter_empty_conv)

lemma inv_callsD:
  "inv_calls s \<Longrightarrow> h < length (eventManagerCore s) \<Longrightarrow>
   sub_operator (eventManagerCore s ! h) = Take limit seen \<Longrightarrow>
   length (received s h) \<le> seen \<and> length (received s h) \<le> limit
     \<and> (limit \<le> seen \<and> 0 < limit \<and> patient (callbacks s) (eventManagerCore s ! h) \<longrightarrow>
          sub_closed (eventManagerCore s ! h))"
  unfolding inv_calls_def by blast

lemma inv_calls_handles: "inv_calls s \<Longrightarrow> c \<in> set (calls s) \<Longrightarrow> fst c < length (eventManagerCore s)"
  unfolding inv_calls_def by blast

lemma inv_callsI:
  assumes "\<And>c. c \<in> set (calls s) \<Longrightarrow> fst c < length (eventManagerCore s)"
    and "\<And>h limit seen. h < length (eventManagerCore s) \<Longrightarrow>
           sub_operator (eventManagerCore s ! h) = Take limit seen \<Longrightarrow>
           length (received s h) \<le> seen \<and> length (received s h) \<le> limit
           \<and> (limit \<le> seen \<and> 0 < limit \<and> patient (callbacks s) (eventManagerCore s ! h) \<longrightarrow>
                sub_closed (eventManagerCore s ! h))"
  shows "inv_calls s"
  unfolding inv_calls_def using assms by blast

lemma patient_closed [simp]: "patient env (sub\<lparr>sub_closed := b\<rparr>) = patient env sub"
  by (simp add: patient_def)

lemma inv_calls_append:
  assumes "inv_calls s" "eventManagerCore s' = eventManagerCore s @ [sub]" "calls s' = calls s"
    and "callbacks s' = callbacks s" and "fresh_operator (sub_operator sub)"
  shows "inv_calls s'"
proof (rule inv_callsI)
  note core = assms(2)
  have rec: "\<And>h. received s' h = received s h"
    using assms(3) by (simp add: received_def)
  show "fst c < length (eventManagerCore s')" if "c \<in> set (calls s')" for c
    using inv_calls_handles [OF assms(1), of c] that by (simp add: assms(3) core)
  show "length (received s' h) \<le> seen \<and> length (received s' h) \<le> limit
      \<and> (limit \<le> seen \<and> 0 < limit \<and> patient (callbacks s') (eventManagerCore s' ! h) \<longrightarrow>
           sub_closed (eventManagerCore s' ! h))"
    if h: "h < length (eventManagerCore s')"
      and t: "sub_operator (eventManagerCore s' ! h) = Take limit seen" for h limit seen
  proof (cases "h < length (eventManagerCore s)")
    case True
    with t have "sub_operator (eventManagerCore s ! h) = Take limit seen"
      by (simp add: core nth_append)
    from inv_callsD [OF assms(1) True this] True show ?thesis
      by (simp add: core nth_append rec assms(4))
  next
    case False
    then have "h = length (eventManagerCore s)"
      using h by (simp add: core)
    moreover have "received s (length (eventManagerCore s)) = []"
      using assms(1) by (intro received_fresh) (simp add: inv_calls_def)
    ultimately show ?thesis
      using assms(5) t by (simp add: core rec)
  qed
qed

lemma inv_calls_closing:
  assumes "inv_calls s" "calls s' = calls s" "callbacks s' = callbacks s"
    and "length (eventManagerCore s') = length (eventManagerCore s)"
    and "\<And>h. h < length (eventManagerCore s) \<Longrightarrow>
           eventManagerCore s' ! h = eventManagerCore s ! h
           \<or> eventManagerCore s' ! h = (eventManagerCore s ! h)\<lparr>sub_closed := True\<rparr>"
  shows "inv_calls s'"
proof (rule inv_callsI)
  have rec: "\<And>h. received s' h = received s h"
    using assms(2) by (simp add: received_def)
  show "fst c < length (eventManagerCore s')" if "c \<in> set (calls s')" for c
    using inv_calls_handles [OF assms(1), of c] that by (simp add: assms(2,4))
  show "length (received s' h) \<le> seen \<and> length (received s' h) \<le> limit
      \<and> (limit \<le> seen \<and> 0 < limit \<and> patient (callbacks s') (eventManagerCore s' ! h) \<longrightarrow>
           sub_closed (eventManagerCore s' ! h))"
    if h: "h < length (eventManagerCore s')"
      and t: "sub_operator (eventManagerCore s' ! h) = Take limit seen" for h limit seen
  proof -
    from h have h': "h < length (eventManagerCore s)" by (simp add: assms(4))
    from assms(5) [OF h'] t have t': "sub_operator (eventManagerCore s ! h) = Take limit seen"
      by auto
    from inv_callsD [OF assms(1) h' t'] assms(5) [OF h'] show ?thesis
      by (auto simp add: rec assms(3))
  qed
qed

lemma extends_same:
  "same_listeners s s' \<Longrightarrow> extends s s'"
  by (simp add: extends_def same_listeners_def)

lemma extends_subscribed:
  "subscribed s s' sub \<Longrightarrow> calls s' = calls s \<Longrightarrow> latest_objects s' = latest_objects s \<Longrightarrow>
   latestEventData s' = latestEventData s \<Longrightarrow> callbacks s' = callbacks s \<Longrightarrow>
   immediates s' = immediates s
     \<or> (\<exists>r. immediates s' = immediates s @ [(length (eventManagerCore s), r)]
           \<and> sub_operator sub = Direct) \<Longrightarrow>
   extends s s'"
  unfolding extends_def by blast

lemma extends_refl [simp]: "extends s s"
  by (simp add: extends_def)

lemma extends_observe: "extends s (snd (observe e s))"
  by (simp add: extends_same same_listeners_observe)

lemma extends_subscribe:
  "extends s (snd (subscribe (Topic a) nxt s))"
proof -
  have "subscribed s (snd (subscribe (Topic a) nxt s))
      \<lparr>sub_event = obs_event (streams s ! a), sub_operator = Direct, sub_next = nxt, sub_closed = False\<rparr>"
    unfolding subscribed_def by auto
  then show ?thesis
    by (rule extends_subscribed) simp_all
qed

lemma extends_derive:
  assumes "fresh_operator oper"
  shows "extends s (snd (rx_subscribe e oper nxt s))"
proof -
  have "subscribed s (snd (rx_subscribe e oper nxt s))
      \<lparr>sub_event = e, sub_operator = oper, sub_next = nxt, sub_closed = False\<rparr>"
    unfolding subscribed_def using assms by (auto intro: exI [of _ 0])
  then show ?thesis
    by (rule extends_subscribed) simp_all
qed

text \<open>A name is invalid, inherited, or the name of a topic stream.\<close>

lemma name_cases:
  obtains (invalid) "isInvalidString e"
  | (inherited) k where "e = JStr k" "inherited k"
  | (own) n where "e = JStr n" "n \<noteq> []" "\<not> inherited n"
  using valid_name [of e] by blast

lemma extends_on:
  assumes "inv_streams s"
  shows "extends s (snd (on e nxt s))"
proof (cases e rule: name_cases)
  case invalid
  then show ?thesis by (simp add: on_invalid)
next
  case (inherited k)
  then show ?thesis by (simp add: on_inherited [OF assms] extends_observe)
next
  case (own n)
  have "subscribed s (snd (on e nxt s))
      \<lparr>sub_event = n, sub_operator = Direct, sub_next = nxt, sub_closed = False\<rparr>"
    unfolding subscribed_def own(1)
    by (auto simp add: on_effect [OF assms own(2,3)] simp del: replicate_Suc)
  then show ?thesis
    by (rule extends_subscribed) simp_all
qed

lemma extends_once:
  assumes "inv_streams s"
  shows "extends s (snd (once e nxt s))"
proof (cases e rule: name_cases)
  case invalid
  then show ?thesis by (simp add: once_invalid)
next
  case (inherited k)
  then show ?thesis by (simp add: on_inherited [OF assms] extends_observe)
next
  case (own n)
  have "subscribed s (snd (once e nxt s))
      \<lparr>sub_event = n, sub_operator = Take 1 0, sub_next = nxt, sub_closed = False\<rparr>"
    unfolding subscribed_def own(1)
    by (auto simp add: once_effect [OF assms own(2,3)] intro: exI [of _ 1])
  then show ?thesis
    by (rule extends_subscribed) simp_all
qed

lemma change_unchanged:
  "isInvalidString e \<or> (truthy_arg c \<and> isNotFunction c) \<Longrightarrow> snd (change e c nxt s) = s"
  by (auto simp add: change_def Let_def observe_invalid isNotFunction_def)

lemma change_None:
  "snd (change e c None s) = s \<or> snd (change e c None s) = snd (observe e s)"
  by (cases "observe e s")
     (auto simp add: change_def Let_def split: sum.splits object.splits)

lemma extends_change:
  assumes "inv_streams s"
  shows "extends s (snd (change e c nxt s))"
proof (cases "truthy_arg c \<and> isNotFunction c")
  case True
  then show ?thesis by (simp add: change_unchanged)
next
  case ok: False
  show ?thesis
  proof (cases e rule: name_cases)
    case invalid
    then show ?thesis by (simp add: change_unchanged)
  next
    case (inherited k)
    then show ?thesis by (simp add: on_inherited(5) [OF assms _ ok] extends_observe)
  next
    case (own n)
    show ?thesis
    proof (cases nxt)
      case None
      then show ?thesis
        using change_None [of e c s] extends_observe [of s e] by auto
    next
      case (Some cb)
      have "subscribed s (snd (change e c nxt s))
          \<lparr>sub_event = n, sub_operator = DistinctUntilChanged (\<lambda>x y. keySelector x) None,
            sub_next = Some cb, sub_closed = False\<rparr>"
        unfolding subscribed_def own(1) Some
        by (auto simp add: change_effect [OF assms own(2,3) ok] intro: exI [of _ 1])
      then show ?thesis
        by (rule extends_subscribed) simp_all
    qed
  qed
qed

lemma latest_None: "snd (latest e None s) = snd (observe e s)"
  by (cases "observe e s") (auto simp add: latest_def split: sum.splits)

lemma scheduled_cases:
  "scheduled s n h = [] \<or> (\<exists>r. scheduled s n h = [(h, r)])"
  by (simp add: scheduled_def split: option.splits)

lemma extends_latest:
  assumes "inv_streams s"
  shows "extends s (snd (latest e nxt s))"
proof (cases nxt)
  case None
  then show ?thesis
    using extends_observe [of s e] by (simp add: latest_None)
next
  case (Some cb)
  show ?thesis
  proof (cases e rule: name_cases)
    case invalid
    then show ?thesis by (simp add: latest_invalid)
  next
    case (inherited k)
    then show ?thesis by (simp add: Some on_inherited [OF assms] extends_observe)
  next
    case (own n)
    have sub: "subscribed s (snd (latest e nxt s))
        \<lparr>sub_event = n, sub_operator = Direct, sub_next = Some cb, sub_closed = False\<rparr>"
      unfolding subscribed_def own(1) Some
      by (auto simp add: latest_effect [OF assms own(2,3)] simp del: replicate_Suc)
    have imm: "immediates (snd (latest e nxt s)) = immediates s
       \<or> (\<exists>r. immediates (snd (latest e nxt s)) =
                  immediates s @ [(length (eventManagerCore s), r)]
            \<and> sub_operator \<lparr>sub_event = n, sub_operator = Direct, sub_next = Some cb,
                  sub_closed = False\<rparr> = Direct)"
      using scheduled_cases [of s n "length (eventManagerCore s)"]
      by (auto simp add: own(1) Some latest_effect(4) [OF assms own(2,3)])
    show ?thesis
      by (rule extends_subscribed [OF sub _ _ _ _ imm]) simp_all
  qed
qed

text \<open>The calls that only ever add a subscriber.\<close>

lemma extends_apply_call:
  assumes "inv_streams s"
    and "c = Observe e \<or> c = Subscribe a nxt \<or> c = Derive a oper nxt \<or> c = On e nxt
         \<or> c = Once e nxt \<or> c = Latest e nxt \<or> c = Change e cmp nxt"
  shows "extends s (apply_call c s)"
  using assms(2) extends_observe [of s e] extends_subscribe [of s a nxt]
    extends_derive [of oper s "obs_event (streams s ! a)" nxt]
    extends_on [OF assms(1), of e nxt] extends_once [OF assms(1), of e nxt]
    extends_latest [OF assms(1), of e nxt] extends_change [OF assms(1), of e cmp nxt]
  by auto

lemma call_cases:
  assumes "inv_streams s"
  obtains (extends) "extends s (apply_call c s)"
  | (Fire) e d where "c = Fire e d"
  | (Off) n where "c = Off n"
  | (OffAll) "c = OffAll"
  | (Unsubscribe) k where "c = Unsubscribe k"
  | (Tick) "c = Tick"
proof (cases c)
  case (Observe e)
  with extends_apply_call [OF assms, of c e] show ?thesis using extends by blast
next
  case (Subscribe a nxt)
  with extends_apply_call [OF assms, of c _ a nxt] show ?thesis using extends by blast
next
  case (Derive a oper nxt)
  with extends_apply_call [OF assms, of c _ a nxt oper] show ?thesis using extends by blast
next
  case (On e nxt)
  with extends_apply_call [OF assms, of c e _ nxt] show ?thesis using extends by blast
next
  case (Once e nxt)
  with extends_apply_call [OF assms, of c e _ nxt] show ?thesis using extends by blast
next
  case (Latest e nxt)
  with extends_apply_call [OF assms, of c e _ nxt] show ?thesis using extends by blast
next
  case (Change e cmp nxt)
  with extends_apply_call [OF assms, of c e _ nxt _ cmp] show ?thesis using extends by blast
qed (use that in blast)+

lemma inv_reg_extends: "inv_reg s \<Longrightarrow> extends s s' \<Longrightarrow> inv_reg s'"
  unfolding extends_def using inv_reg_subscribed inv_reg_same by blast

lemma inv_latest_extends: "inv_latest s \<Longrightarrow> extends s s' \<Longrightarrow> inv_latest s'"
  unfolding extends_def inv_latest_def by simp

lemma inv_imm_extends:
  assumes "inv_imm s" "extends s s'"
  shows "inv_imm s'"
proof -
  from assms(2) consider
    (same) "eventManagerCore s' = eventManagerCore s" "immediates s' = immediates s"
  | (sub) sub where "eventManagerCore s' = eventManagerCore s @ [sub]"
      "immediates s' = immediates s
       \<or> (\<exists>r. immediates s' = immediates s @ [(length (eventManagerCore s), r)]
             \<and> sub_operator sub = Direct)"
    unfolding extends_def subscribed_def by blast
  then show ?thesis
  proof cases
    case same
    then show ?thesis using assms(1) by (simp add: inv_imm_def)
  next
    case sub
    then show ?thesis using inv_imm_append [OF assms(1) sub(1) sub(2)] by simp
  qed
qed

lemma inv_calls_extends:
  assumes "inv_calls s" "extends s s'"
  shows "inv_calls s'"
proof -
  from assms(2) have c: "calls s' = calls s" and cb: "callbacks s' = callbacks s"
    by (simp_all add: extends_def)
  from assms(2) consider
    (same) "eventManagerCore s' = eventManagerCore s"
  | (sub) sub where "eventManagerCore s' = eventManagerCore s @ [sub]"
      "fresh_operator (sub_operator sub)"
    unfolding extends_def subscribed_def by blast
  then show ?thesis
  proof cases
    case same
    show ?thesis
      by (rule inv_calls_closing [OF assms(1) c cb]) (simp_all add: same)
  next
    case sub
    show ?thesis by (rule inv_calls_append [OF assms(1) sub(1) c cb sub(2)])
  qed
qed

lemma fire_cases:
  obtains (invalid) "isInvalidString e" "fire e d s = (Inl (TypeError ''given event is not a valid string''), s)"
  | (valid) n where "e = JStr n" "n \<noteq> []"
  using valid_name [of e] fire_invalid [of e d s] by blast

lemma fire_sub:
  assumes "h < length (eventManagerCore s)"
  shows "sub_event (eventManagerCore (snd (fire e d s)) ! h) = sub_event (eventManagerCore s ! h)"
    and "sub_next (eventManagerCore (snd (fire e d s)) ! h) = sub_next (eventManagerCore s ! h)"
    and "sub_operator (eventManagerCore (snd (fire e d s)) ! h) = Direct
           \<longleftrightarrow> sub_operator (eventManagerCore s ! h) = Direct"
    and "sub_closed (eventManagerCore s ! h) \<Longrightarrow> sub_closed (eventManagerCore (snd (fire e d s)) ! h)"
  using assms
  by (cases e d s rule: fire_cases; simp add: fire_nth receive_stays_closed)+

lemma inv_reg_fire: "inv_reg s \<Longrightarrow> inv_reg (snd (fire e d s))"
  by (rule inv_reg_closing [of s]) (simp_all add: fire_sub)

lemma inv_imm_fire: "inv_imm s \<Longrightarrow> inv_imm (snd (fire e d s))"
  by (rule inv_imm_closing [of s]) (simp_all add: fire_sub)

lemma inv_latest_fire:
  assumes "inv_latest s"
  shows "inv_latest (snd (fire e d s))"
proof (cases e d s rule: fire_cases)
  case invalid
  then show ?thesis using assms by simp
next
  case (valid n)
  show ?thesis
  proof (cases "latestEventData s n")
    case None
    show ?thesis
    proof (cases "inherited n")
      case True
      with assms None show ?thesis
        unfolding inv_latest_def valid by (simp add: fire_latest_inherited)
    next
      case False
      with assms None show ?thesis
        unfolding inv_latest_def valid
        by (auto simp add: fire_latest [OF valid(2)] nth_append split: if_splits intro: less_SucI)
    qed
  next
    case (Some r)
    with assms show ?thesis
      unfolding inv_latest_def valid
      by (auto simp add: fire_latest_own [OF valid(2)] nth_list_update split: if_splits)
  qed
qed

lemma receive_Take:
  assumes "sub_operator (fst (receive env e d h sub)) = Take l k"
  shows "(fst (receive env e d h sub) = sub \<and> \<not> hears e d sub)
       \<or> (\<exists>k0. sub_operator sub = Take l k0 \<and> k = Suc k0 \<and> \<not> sub_closed sub
              \<and> (hears e d sub \<longrightarrow> k \<le> l)
              \<and> (k = l \<and> patient env sub \<longrightarrow> sub_closed (fst (receive env e d h sub))))"
proof (cases "sub_closed sub \<or> sub_event sub \<noteq> e")
  case True
  then show ?thesis by (auto simp add: receive_def hears_def)
next
  case False
  then show ?thesis
    using assms
    by (cases "(sub_operator sub, d)" rule: operator_next.cases)
       (auto simp add: receive_def hears_def passes_def call_next_def patient_def
        split: if_splits option.splits)
qed

lemma patient_receive [simp]: "patient env (fst (receive env' e d h sub)) = patient env sub"
  by (simp add: patient_def)

lemma inv_calls_fire:
  assumes "inv_calls s"
  shows "inv_calls (snd (fire e d s))"
proof (cases e d s rule: fire_cases)
  case invalid
  then show ?thesis using assms by simp
next
  case (valid n)
  let ?s' = "snd (fire (JStr n) d s)"
  let ?env = "callbacks s"
  show ?thesis
    unfolding valid
  proof (rule inv_callsI)
    show "fst c < length (eventManagerCore ?s')" if "c \<in> set (calls ?s')" for c
      using calls_fire_handles [OF valid(2) that] inv_calls_handles [OF assms, of c] by auto
    show "length (received ?s' h) \<le> seen \<and> length (received ?s' h) \<le> limit
        \<and> (limit \<le> seen \<and> 0 < limit \<and> patient (callbacks ?s') (eventManagerCore ?s' ! h) \<longrightarrow>
             sub_closed (eventManagerCore ?s' ! h))"
      if h: "h < length (eventManagerCore ?s')"
        and t: "sub_operator (eventManagerCore ?s' ! h) = Take limit seen" for h limit seen
    proof -
      from h have h': "h < length (eventManagerCore s)" by simp
      let ?sub = "eventManagerCore s ! h"
      note old = inv_callsD [OF assms h']
      show ?thesis
      proof (cases "reached ?env n d (eventManagerCore s) h")
        case False
        then have "eventManagerCore ?s' ! h = ?sub" "received ?s' h = received s h"
          using h' by (simp_all add: fire_nth [OF valid(2)] received_fire [OF valid(2)])
        with old [of limit seen] t show ?thesis by simp
      next
        case True
        then have new: "eventManagerCore ?s' ! h = fst (receive ?env n d h ?sub)"
          using h' by (simp add: fire_nth [OF valid(2)])
        have rec: "received ?s' h = received s h @ (if hears n d ?sub then [d] else [])"
          using h' True by (simp add: received_fire [OF valid(2)])
        from receive_Take [OF t [unfolded new]] show ?thesis
        proof
          assume u: "fst (receive ?env n d h ?sub) = ?sub \<and> \<not> hears n d ?sub"
          with t new have "sub_operator ?sub = Take limit seen" by simp
          from old [OF this] u show ?thesis
            by (simp add: new rec)
        next
          assume "\<exists>k0. sub_operator ?sub = Take limit k0 \<and> seen = Suc k0 \<and> \<not> sub_closed ?sub
                  \<and> (hears n d ?sub \<longrightarrow> seen \<le> limit)
                  \<and> (seen = limit \<and> patient ?env ?sub \<longrightarrow>
                       sub_closed (fst (receive ?env n d h ?sub)))"
          then obtain k0 where k0: "sub_operator ?sub = Take limit k0" "seen = Suc k0"
            "\<not> sub_closed ?sub" "hears n d ?sub \<longrightarrow> seen \<le> limit"
            "seen = limit \<and> patient ?env ?sub \<longrightarrow> sub_closed (fst (receive ?env n d h ?sub))"
            by blast
          from old [OF k0(1)] k0 show ?thesis
            by (auto simp add: new rec)
        qed
      qed
    qed
  qed
qed

lemma inv_reg_off:
  assumes "inv_reg s"
  shows "inv_reg (snd (off n s))"
proof -
  have old: "\<And>m h. h \<in> set (registered s m) \<Longrightarrow>
      h < length (eventManagerCore s) \<and> sub_event (eventManagerCore s ! h) = m"
    using assms by (simp add: inv_reg_def)
  show ?thesis
    unfolding inv_reg_def
  proof (intro allI ballI)
    fix m h assume "h \<in> set (registered (snd (off n s)) m)"
    then have "h \<in> set (registered s m)" by (simp split: if_splits)
    from old [OF this] show "h < length (eventManagerCore (snd (off n s)))
        \<and> sub_event (eventManagerCore (snd (off n s)) ! h) = m"
      by (simp add: off_nth)
  qed
qed

lemma inv_latest_off: "inv_latest s \<Longrightarrow> inv_latest (snd (off n s))"
  unfolding inv_latest_def by (auto split: if_splits)

lemma inv_imm_off: "inv_imm s \<Longrightarrow> inv_imm (snd (off n s))"
  by (rule inv_imm_closing [of s]) (auto simp add: off_nth)

lemma received_off [simp]: "received (snd (off n s)) h = received s h"
  by (simp add: received_def)

lemma inv_calls_off: "inv_calls s \<Longrightarrow> inv_calls (snd (off n s))"
  by (rule inv_calls_closing [of s]) (auto simp add: off_nth)

lemma inv_reg_unsubscribe: "inv_reg s \<Longrightarrow> inv_reg (unsubscribe h s)"
  by (rule inv_reg_closing [of s]) (auto simp add: unsubscribe_nth)

lemma inv_latest_unsubscribe: "inv_latest s \<Longrightarrow> inv_latest (unsubscribe h s)"
  unfolding inv_latest_def by simp

lemma inv_imm_unsubscribe: "inv_imm s \<Longrightarrow> inv_imm (unsubscribe h s)"
  by (rule inv_imm_closing [of s]) (auto simp add: unsubscribe_nth)

lemma received_unsubscribe [simp]: "received (unsubscribe h s) k = received s k"
  by (simp add: received_def)

lemma inv_calls_unsubscribe: "inv_calls s \<Longrightarrow> inv_calls (unsubscribe k s)"
  by (rule inv_calls_closing [of s]) (auto simp add: unsubscribe_nth)

lemma tick_sub:
  "sub_event (eventManagerCore (tick s) ! h) = sub_event (eventManagerCore s ! h)"
  "sub_next (eventManagerCore (tick s) ! h) = sub_next (eventManagerCore s ! h)"
  "sub_operator (eventManagerCore (tick s) ! h) = sub_operator (eventManagerCore s ! h)"
  using tick_nth [of s h] by auto

lemma inv_reg_tick: "inv_reg s \<Longrightarrow> inv_reg (tick s)"
  by (rule inv_reg_closing [of s]) (simp_all add: tick_sub)

lemma inv_imm_tick: "inv_imm (tick s)"
  by (simp add: inv_imm_def)

lemma inv_latest_tick: "inv_latest s \<Longrightarrow> inv_latest (tick s)"
  unfolding inv_latest_def by simp

lemma inv_calls_tick:
  assumes "inv_calls s" "inv_imm s"
  shows "inv_calls (tick s)"
proof (rule inv_callsI)
  show "fst c < length (eventManagerCore (tick s))" if "c \<in> set (calls (tick s))" for c
    using tick_handles [OF that] inv_calls_handles [OF assms(1), of c] assms(2)
    by (auto simp add: inv_imm_def)
  show "length (received (tick s) h) \<le> seen \<and> length (received (tick s) h) \<le> limit
      \<and> (limit \<le> seen \<and> 0 < limit \<and> patient (callbacks (tick s)) (eventManagerCore (tick s) ! h) \<longrightarrow>
           sub_closed (eventManagerCore (tick s) ! h))"
    if h: "h < length (eventManagerCore (tick s))"
      and t: "sub_operator (eventManagerCore (tick s) ! h) = Take limit seen" for h limit seen
  proof -
    from h have h': "h < length (eventManagerCore s)" by simp
    from t have t': "sub_operator (eventManagerCore s ! h) = Take limit seen"
      by (simp add: tick_sub)
    have "h \<notin> fst ` set (immediates s)"
      using assms(2) t' by (auto simp add: inv_imm_def)
    from tick_other [OF this] inv_callsD [OF assms(1) h' t'] show ?thesis
      by simp
  qed
qed

lemma wf_init: "wf init"
  by (simp add: wf_def init_def inv_streams_def inv_reg_def inv_latest_def
      inv_imm_def inv_calls_def registered_def)

lemma wf_start: "wf (start env)"
  by (simp add: wf_def start_def init_def inv_streams_def inv_reg_def inv_latest_def
      inv_imm_def inv_calls_def registered_def)

lemma inv_streams_same:
  "inv_streams s \<Longrightarrow> streams s' = streams s \<Longrightarrow> observables s' = observables s \<Longrightarrow> inv_streams s'"
  by (simp add: inv_streams_def)

lemma inv_streams_apply_call:
  assumes "inv_streams s"
  shows "inv_streams (apply_call c s)"
proof (cases c)
  case (Observe e)
  then show ?thesis using assms by (simp add: inv_streams_observe)
next
  case (Subscribe a nxt)
  then show ?thesis using assms by (auto intro: inv_streams_same)
next
  case (Derive a oper nxt)
  then show ?thesis using assms by (auto intro: inv_streams_same)
next
  case (On e nxt)
  then show ?thesis
    using inv_streams_same [OF inv_streams_observe [OF assms, of e], of "snd (on e nxt s)"] by simp
next
  case (Once e nxt)
  then show ?thesis
    using inv_streams_same [OF inv_streams_observe [OF assms, of e], of "snd (once e nxt s)"] by simp
next
  case (Latest e nxt)
  then show ?thesis
    using inv_streams_same [OF inv_streams_observe [OF assms, of e], of "snd (latest e nxt s)"] by simp
next
  case (Change e cmp nxt)
  then show ?thesis
    using change_streams [of e cmp nxt s] assms
      inv_streams_same [OF inv_streams_observe [OF assms, of e], of "snd (change e cmp nxt s)"]
    by auto
next
  case (Fire e d)
  then show ?thesis using inv_streams_same [OF assms, of "snd (fire e d s)"] by simp
next
  case (Off n)
  then show ?thesis using inv_streams_same [OF assms, of "snd (off n s)"] by simp
next
  case OffAll
  then show ?thesis using inv_streams_same [OF assms, of "snd (offAll s)"] by simp
next
  case (Unsubscribe h)
  then show ?thesis using inv_streams_same [OF assms, of "unsubscribe h s"] by simp
next
  case Tick
  then show ?thesis using inv_streams_same [OF assms, of "tick s"] by simp
qed

lemma wf_extends:
  assumes "wf s" "extends s s'" "inv_streams s'"
  shows "wf s'"
  using assms inv_reg_extends inv_latest_extends inv_imm_extends inv_calls_extends
  unfolding wf_def by blast

lemma wf_off: "wf s \<Longrightarrow> wf (snd (off n s))"
  unfolding wf_def
  using inv_reg_off inv_latest_off inv_imm_off inv_calls_off
    inv_streams_same [of s "snd (off n s)"]
  by simp

lemma wf_apply_call:
  assumes "wf s"
  shows "wf (apply_call c s)"
proof -
  have st: "inv_streams s" using assms by (simp add: wf_def)
  note st' = inv_streams_apply_call [OF st, of c]
  show ?thesis
  proof (rule call_cases [OF st, of c], goal_cases)
    case 1
    then show ?case by (rule wf_extends [OF assms _ st'])
  next
    case (2 e d)
    with assms st' show ?case
      unfolding wf_def
      using inv_reg_fire inv_latest_fire inv_imm_fire inv_calls_fire by simp
  next
    case (3 n)
    with wf_off [OF assms] show ?case by simp
  next
    case 4
    with fold_off_preserves [of wf, OF wf_off assms] show ?case by (simp add: offAll_def)
  next
    case (5 k)
    with assms st' show ?case
      unfolding wf_def
      using inv_reg_unsubscribe inv_latest_unsubscribe inv_imm_unsubscribe
        inv_calls_unsubscribe by simp
  next
    case 6
    with assms st' show ?case
      unfolding wf_def
      using inv_calls_tick [of s] inv_imm_tick [of s] inv_reg_tick [of s] inv_latest_tick [of s]
      by simp
  qed
qed

lemma run_Nil [simp]: "run [] s = s"
  by (simp add: run_def)

lemma run_Cons [simp]: "run (c # cs) s = run cs (apply_call c s)"
  by (simp add: run_def)

lemma run_append [simp]: "run (cs @ cs') s = run cs' (run cs s)"
  by (simp add: run_def)

lemma wf_run: "wf s \<Longrightarrow> wf (run cs s)"
  by (induction cs arbitrary: s) (simp_all add: wf_apply_call)

lemma wf_reachable: "wf (run cs (start env))"
  by (simp add: wf_run wf_start)

lemma callbacks_apply_call [simp]: "callbacks (apply_call c s) = callbacks s"
  by (cases c) simp_all

lemma callbacks_run [simp]: "callbacks (run cs s) = callbacks s"
  by (induction cs arbitrary: s) simp_all

lemma callbacks_start [simp]: "callbacks (start env) = env"
  by (simp add: start_def)

section \<open>Evaluating runs\<close>

lemmas eval_defs =
  init_def start_def returns_def observe_def topic_def wrap_subscribe_def subscribe_def
  rx_subscribe_def registerSubscription_def on_def once_def latest_def change_def fire_def
  off_def offAll_def unsubscribe_def tick_def run_immediate_def receive_def call_next_def
  isNotFunction_def keySelector_def defaultComparer_def registered_def received_def
  inherited_def

section \<open>Delivery by fire\<close>

lemma fire_result:
  assumes "n \<noteq> []"
  shows "fst (fire (JStr n) v s) = Inr () \<longleftrightarrow>
           (\<forall>h < length (eventManagerCore s). \<not> throwing (callbacks s) n v (eventManagerCore s ! h))"
    and "fst (fire (JStr n) v s) = Inl (Thrown k) \<Longrightarrow>
           k < length (eventManagerCore s) \<and> throwing (callbacks s) n v (eventManagerCore s ! k)
           \<and> reached (callbacks s) n v (eventManagerCore s) k"
proof -
  let ?t = "snd (snd (notify (callbacks s) n v 0 (eventManagerCore s)))"
  show "fst (fire (JStr n) v s) = Inr () \<longleftrightarrow>
           (\<forall>h < length (eventManagerCore s). \<not> throwing (callbacks s) n v (eventManagerCore s ! h))"
    using notify_thrower_None [of "callbacks s" n v 0 "eventManagerCore s"]
    by (cases ?t) (simp_all add: fire_effect(1) [OF assms])
  show "k < length (eventManagerCore s) \<and> throwing (callbacks s) n v (eventManagerCore s ! k)
           \<and> reached (callbacks s) n v (eventManagerCore s) k"
    if "fst (fire (JStr n) v s) = Inl (Thrown k)"
  proof -
    from that have "?t = Some k"
      by (cases ?t) (simp_all add: fire_effect(1) [OF assms])
    from notify_thrower_Some [OF this] show ?thesis by simp
  qed
qed

lemma reached_quiet:
  "\<forall>h < length subs. \<not> throwing env n v (subs ! h) \<Longrightarrow> h < length subs \<Longrightarrow> reached env n v subs h"
  by (simp add: reached_def)

text \<open>
  C1, as amended. For a non-empty name \<open>n\<close>, \<^verbatim>\<open>fire(n, v)\<close> hands the envelope to the
  subscribers in the order in which they subscribed, until the callback of one of them
  throws: the callbacks invoked by it, when it returns or throws, are exactly those of
  the subscriptions that hear \<open>v\<close> on \<open>n\<close> (open, subscribed to the topic of exactly
  the name \<open>n\<close>, with a callback, and whose own operator lets \<open>v\<close> through) and that
  the envelope reaches, each once with \<open>v\<close>, in that order. \<^verbatim>\<open>fire\<close> returns normally
  exactly when none of these callbacks throws; otherwise it throws what the first such
  callback threw. When no callback throws, every open listener on \<open>n\<close> made by
  \<^verbatim>\<open>on\<close>, \<^verbatim>\<open>latest\<close> or a subscription to \<^verbatim>\<open>observe(n)\<close>, and every
  \<^verbatim>\<open>once\<close> listener that has not received anything yet, receives \<open>v\<close>. In every
  case, a subscription to the topic of any other name receives nothing. Whether a
  \<^verbatim>\<open>change\<close> listener receives \<open>v\<close> is decided by its filter. (Callbacks are
  taken not to call the manager while they run.)
\<close>

theorem fire_delivers:
  assumes "n \<noteq> []"
  shows "calls (snd (fire (JStr n) v s)) =
        calls s @ map (\<lambda>h. (h, v))
          (filter (\<lambda>h. hears n v (eventManagerCore s ! h)
                      \<and> reached (callbacks s) n v (eventManagerCore s) h)
             [0..<length (eventManagerCore s)])
    \<and> (fst (fire (JStr n) v s) = Inr () \<longleftrightarrow>
         (\<forall>h < length (eventManagerCore s).
            \<not> throwing (callbacks s) n v (eventManagerCore s ! h)))
    \<and> (\<forall>k. fst (fire (JStr n) v s) = Inl (Thrown k) \<longrightarrow>
          k < length (eventManagerCore s) \<and> throwing (callbacks s) n v (eventManagerCore s ! k)
          \<and> reached (callbacks s) n v (eventManagerCore s) k)
    \<and> ((\<forall>h < length (eventManagerCore s).
            \<not> throwing (callbacks s) n v (eventManagerCore s ! h)) \<longrightarrow>
        (\<forall>h < length (eventManagerCore s).
          \<not> sub_closed (eventManagerCore s ! h) \<and> sub_event (eventManagerCore s ! h) = n
          \<and> sub_next (eventManagerCore s ! h) \<noteq> None
          \<and> (sub_operator (eventManagerCore s ! h) = Direct
              \<or> sub_operator (eventManagerCore s ! h) = Take 1 0) \<longrightarrow>
          received (snd (fire (JStr n) v s)) h = received s h @ [v]))
    \<and> (\<forall>h. sub_event (eventManagerCore s ! h) \<noteq> n \<longrightarrow>
          received (snd (fire (JStr n) v s)) h = received s h)"
proof -
  have a: "calls (snd (fire (JStr n) v s)) =
        calls s @ map (\<lambda>h. (h, v))
          (filter (\<lambda>h. hears n v (eventManagerCore s ! h)
                      \<and> reached (callbacks s) n v (eventManagerCore s) h)
             [0..<length (eventManagerCore s)])"
    by (simp add: fire_effect(3) [OF assms] notify_calls)
  have d: "received (snd (fire (JStr n) v s)) h = received s h @ [v]"
    if "\<forall>h < length (eventManagerCore s). \<not> throwing (callbacks s) n v (eventManagerCore s ! h)"
      "h < length (eventManagerCore s)"
      "\<not> sub_closed (eventManagerCore s ! h)" "sub_event (eventManagerCore s ! h) = n"
      "sub_next (eventManagerCore s ! h) \<noteq> None"
      "sub_operator (eventManagerCore s ! h) = Direct
         \<or> sub_operator (eventManagerCore s ! h) = Take 1 0" for h
    using that reached_quiet [OF that(1,2)]
    by (auto simp add: received_fire [OF assms] hears_def passes_def)
  have e: "received (snd (fire (JStr n) v s)) h = received s h"
    if "sub_event (eventManagerCore s ! h) \<noteq> n" for h
    using that by (simp add: received_fire [OF assms] hears_def)
  from a d e fire_result [OF assms, of v s] show ?thesis
    by blast
qed

theorem fire_delivers_witness:
  "calls (snd (fire (JStr ''a'') (JNum 7)
      (run [On (JStr ''a'') (Some 0), On (JStr ''b'') (Some 1), Once (JStr ''a'') (Some 2)] init))) =
     [(0, JNum 7), (2, JNum 7)]
   \<and> fst (fire (JStr ''a'') (JNum 7)
      (run [On (JStr ''a'') (Some 0), On (JStr ''b'') (Some 1), Once (JStr ''a'') (Some 2)] init)) =
     Inr ()"
  using fire_delivers [of "''a''" "JNum 7"
      "run [On (JStr ''a'') (Some 0), On (JStr ''b'') (Some 1), Once (JStr ''a'') (Some 2)] init"]
  by (simp add: eval_defs hears_def passes_def throwing_def reached_def split_beta Let_def upt_rec
      less_Suc_eq)

text \<open>C1 as stated fails for a \<^verbatim>\<open>change\<close> listener: after
  \<^verbatim>\<open>change('a', undefined, cb)\<close> and \<^verbatim>\<open>fire('a', 1)\<close> the listener is open and
  registered on \<^verbatim>\<open>'a'\<close>, and a second \<^verbatim>\<open>fire('a', 1)\<close> invokes no callback.\<close>

theorem fire_change_listener_counterexample:
  "\<not> sub_closed (eventManagerCore change_listener_state ! 0)
   \<and> sub_event (eventManagerCore change_listener_state ! 0) = ''a''
   \<and> sub_next (eventManagerCore change_listener_state ! 0) = Some 0
   \<and> registered change_listener_state ''a'' = [0]
   \<and> calls (snd (fire (JStr ''a'') (JNum 1) change_listener_state)) = calls change_listener_state"
  by (simp add: change_listener_state_def eval_defs split_beta Let_def)

text \<open>It fails as well when a callback throws: with two listeners on \<^verbatim>\<open>'a'\<close> of which
  the first throws, \<^verbatim>\<open>fire('a', 7)\<close> throws and the second listener, open and
  registered, receives nothing.\<close>

lemma fire_throwing_listener:
  "fst (fire (JStr ''a'') (JNum 7)
      (run [On (JStr ''a'') (Some 0), On (JStr ''a'') (Some 1)]
         (start (\<lambda>cb v. \<lparr>throws = (cb = 0), ends = False\<rparr>)))) = Inl (Thrown 0)
   \<and> calls (snd (fire (JStr ''a'') (JNum 7)
      (run [On (JStr ''a'') (Some 0), On (JStr ''a'') (Some 1)]
         (start (\<lambda>cb v. \<lparr>throws = (cb = 0), ends = False\<rparr>))))) = [(0, JNum 7)]
   \<and> \<not> sub_closed (eventManagerCore
      (run [On (JStr ''a'') (Some 0), On (JStr ''a'') (Some 1)]
         (start (\<lambda>cb v. \<lparr>throws = (cb = 0), ends = False\<rparr>))) ! 1)"
  by (simp add: eval_defs split_beta Let_def)

section \<open>The comparer of change\<close>

text \<open>
  C2 does not hold of the code: \<^verbatim>\<open>change\<close> checks its comparer and then calls
  \<^verbatim>\<open>distinctUntilChanged(_keySelector)\<close> without it. With a comparer that judges no two
  payloads equal, \<^verbatim>\<open>fire('a', 1)\<close> twice reaches the change subscriber once, where the
  claim lets both payloads through.
\<close>

theorem change_ignores_comparer:
  "calls (run [Change (JStr ''a'') (Func (\<lambda>x y. JBool False)) (Some 0),
               Fire (JStr ''a'') (JNum 1), Fire (JStr ''a'') (JNum 1)] init) = [(0, JNum 1)]"
  by (simp add: eval_defs split_beta Let_def)

text \<open>No comparer that is a function makes a difference to \<^verbatim>\<open>change\<close>.\<close>

lemma change_any_comparer:
  "change event (Func c1) nxt s = change event (Func c2) nxt s"
  by (simp add: change_def Let_def isNotFunction_def)

text \<open>Two distinct objects under the default comparer: one delivery.\<close>

lemma change_default_comparer_objects:
  "calls (run [Change (JStr ''a'') (Value JUndefined) (Some 0),
               Fire (JStr ''a'') (JObj 1), Fire (JStr ''a'') (JObj 2)] init) = [(0, JObj 1)]"
  by (simp add: eval_defs split_beta Let_def)

section \<open>The entries of the registry\<close>

text \<open>C10 as stated fails at the second call: after \<^verbatim>\<open>on('a', f)\<close> and
  \<^verbatim>\<open>on('a', g)\<close> on the fresh module the collection of \<^verbatim>\<open>'a'\<close> has five entries,
  the second handle three times, because the second \<^verbatim>\<open>observe('a')\<close> has put a second
  registering function around \<^verbatim>\<open>subscribe\<close>.\<close>

theorem on_twice_registry_counterexample:
  "registered (run [On (JStr ''a'') (Some 0), On (JStr ''a'') (Some 1)] init) ''a'' = [0, 0, 1, 1, 1]"
  by (simp add: eval_defs split_beta Let_def)

text \<open>One, two and three calls of \<^verbatim>\<open>on\<close> for a name leave two, five and nine
  entries; one call of \<^verbatim>\<open>once\<close> leaves one.\<close>

lemma on_counts:
  "length (registered (run [On (JStr ''a'') (Some 0)] init) ''a'') = 2"
  "length (registered (run [On (JStr ''a'') (Some 0), On (JStr ''a'') (Some 1)] init) ''a'') = 5"
  "length (registered (run [On (JStr ''a'') (Some 0), On (JStr ''a'') (Some 1),
      On (JStr ''a'') (Some 2)] init) ''a'') = 9"
  "registered (run [Once (JStr ''a'') (Some 0)] init) ''a'' = [0]"
  by (simp_all add: eval_defs split_beta Let_def)

text \<open>On an inherited name \<^verbatim>\<open>on\<close> and \<^verbatim>\<open>once\<close> throw and register nothing.\<close>

lemma on_inherited_name:
  "fst (on (JStr ''constructor'') (Some 0) init) =
     Inl (TypeError ''Cannot read property call of undefined'')"
  "fst (once (JStr ''constructor'') (Some 0) init) = Inl (TypeError ''take is not a function'')"
  "subscriptions (snd (on (JStr ''constructor'') (Some 0) init)) = []"
  "subscriptions (snd (once (JStr ''constructor'') (Some 0) init)) = []"
  "eventManagerCore (snd (on (JStr ''constructor'') (Some 0) init)) = []"
  by (simp_all add: eval_defs split_beta Let_def)

lemma registered_fresh:
  "inv_reg s \<Longrightarrow> length (eventManagerCore s) \<notin> set (registered s n)"
  unfolding inv_reg_def by blast

lemma count_list_append [simp]: "count_list (xs @ ys) x = count_list xs x + count_list ys x"
  by (induction xs) simp_all

lemma count_list_replicate [simp]: "count_list (replicate k x) x = k"
  by (induction k) simp_all

lemma count_list_absent: "x \<notin> set xs \<Longrightarrow> count_list xs x = 0"
  by (induction xs) auto

lemma wrappers_on:
  assumes "inv_streams s" "n \<noteq> []" "\<not> inherited n"
  shows "wrappers (snd (on (JStr n) nxt s)) n = Suc (wrappers s n)"
    and "wrappers (snd (once (JStr n) nxt s)) n = Suc (wrappers s n)"
  using wrappers_observe [OF assms, of n]
    wrappers_cong [of "snd (on (JStr n) nxt s)" "snd (observe (JStr n) s)" n]
    wrappers_cong [of "snd (once (JStr n) nxt s)" "snd (observe (JStr n) s)" n]
  by simp_all

lemma on_registers:
  assumes "wf s" "n \<noteq> []" "\<not> inherited n"
  shows "registered (snd (on (JStr n) nxt s)) n =
           registered s n @ replicate (wrappers s n + 2) (length (eventManagerCore s))"
    and "count_list (registered (snd (on (JStr n) nxt s)) n) (length (eventManagerCore s)) =
           wrappers s n + 2"
proof -
  have st: "inv_streams s" and reg: "inv_reg s" using assms(1) by (simp_all add: wf_def)
  show a: "registered (snd (on (JStr n) nxt s)) n =
           registered s n @ replicate (wrappers s n + 2) (length (eventManagerCore s))"
    by (simp add: on_effect(3) [OF st assms(2,3)])
  show "count_list (registered (snd (on (JStr n) nxt s)) n) (length (eventManagerCore s)) =
           wrappers s n + 2"
    unfolding a using registered_fresh [OF reg, of n]
    by (simp add: count_list_absent del: replicate_Suc)
qed

lemma on_many_registers:
  assumes "wf s" "n \<noteq> []" "\<not> inherited n"
  shows "2 * length (registered (run (map (On (JStr n)) nxts) s) n) =
           2 * length (registered s n) + length nxts * (2 * wrappers s n + length nxts + 3)"
  using assms(1)
proof (induction nxts arbitrary: s)
  case Nil
  then show ?case by simp
next
  case (Cons nxt nxts)
  let ?s' = "snd (on (JStr n) nxt s)"
  have st: "inv_streams s" using Cons.prems by (simp add: wf_def)
  have wf': "wf ?s'"
    using wf_apply_call [OF Cons.prems, of "On (JStr n) nxt"] by simp
  have w: "wrappers ?s' n = Suc (wrappers s n)"
    by (rule wrappers_on(1) [OF st assms(2,3)])
  have r: "length (registered ?s' n) = length (registered s n) + wrappers s n + 2"
    by (simp add: on_registers(1) [OF Cons.prems assms(2,3)])
  from Cons.IH [OF wf'] show ?case
    by (simp add: w r algebra_simps)
qed

text \<open>
  C10, as amended. In every state the module can reach without writing to
  \<^verbatim>\<open>Object.prototype\<close>, for a non-empty name \<open>n\<close> that is not an inherited key:
  \<^verbatim>\<open>on(n, ...)\<close> returns a new handle and puts it into the collection of \<open>n\<close> once by
  its own call of \<^verbatim>\<open>_registerSubscription\<close> and once by each registering function
  that \<^verbatim>\<open>observe\<close> has installed on the topic stream, of which there is one for
  every run of \<^verbatim>\<open>observe(n)\<close> so far, the one inside this \<^verbatim>\<open>on\<close> included: at least
  twice, and \<open>wrappers + 2\<close> times exactly; so \<open>k\<close> calls of \<^verbatim>\<open>on\<close> in a row add
  \<open>k (2 wrappers + k + 3) / 2\<close> entries, which is two, five and nine for one, two and
  three calls on a new name. \<^verbatim>\<open>once(n, ...)\<close> puts the handle it returns into the
  collection exactly once, by its own call of \<^verbatim>\<open>_registerSubscription\<close>, since it
  subscribes to the \<^verbatim>\<open>take(1)\<close> stream. \<^verbatim>\<open>off(n)\<close> unsubscribes the entries of the
  collection one after the other, duplicates included, and unsubscribing a handle a
  second time changes nothing.
\<close>

theorem registry_entries:
  assumes "n \<noteq> []" "\<not> inherited n" "\<not> prototype_written (run cs (start env))"
  shows "fst (on (JStr n) nxt (run cs (start env))) =
           Inr (length (eventManagerCore (run cs (start env))))
    \<and> registered (snd (on (JStr n) nxt (run cs (start env)))) n =
         registered (run cs (start env)) n @
           replicate (wrappers (run cs (start env)) n + 2)
             (length (eventManagerCore (run cs (start env))))
    \<and> count_list (registered (snd (on (JStr n) nxt (run cs (start env)))) n)
         (length (eventManagerCore (run cs (start env)))) = wrappers (run cs (start env)) n + 2
    \<and> wrappers (snd (on (JStr n) nxt (run cs (start env)))) n =
         wrappers (run cs (start env)) n + 1
    \<and> 2 * length (registered (run (map (On (JStr n)) nxts) (run cs (start env))) n) =
         2 * length (registered (run cs (start env)) n)
           + length nxts * (2 * wrappers (run cs (start env)) n + length nxts + 3)
    \<and> fst (once (JStr n) nxt (run cs (start env))) =
         Inr (length (eventManagerCore (run cs (start env))))
    \<and> registered (snd (once (JStr n) nxt (run cs (start env)))) n =
         registered (run cs (start env)) n @ [length (eventManagerCore (run cs (start env)))]
    \<and> count_list (registered (snd (once (JStr n) nxt (run cs (start env)))) n)
         (length (eventManagerCore (run cs (start env)))) = 1
    \<and> eventManagerCore (snd (off n (run cs (start env)))) =
         eventManagerCore (fold unsubscribe (registered (run cs (start env)) n) (run cs (start env)))
    \<and> unsubscribe h (unsubscribe h (run cs (start env))) = unsubscribe h (run cs (start env))"
proof -
  let ?s = "run cs (start env)"
  have wf: "wf ?s" by (rule wf_reachable)
  then have st: "inv_streams ?s" and reg: "inv_reg ?s"
    by (simp_all add: wf_def)
  note n = assms(1,2)
  show ?thesis
    using on_effect(1) [OF st n, of nxt] on_registers [OF wf n, of nxt]
      wrappers_on(1) [OF st n, of nxt] on_many_registers [OF wf n, of nxts]
      once_effect [OF st n, of nxt] registered_fresh [OF reg, of n]
    by (simp add: off_core unsubscribe_idem count_list_absent)
qed

theorem registry_entries_witness:
  "registered (snd (on (JStr ''a'') (Some 0) (run [] (start (\<lambda>cb v. returns))))) ''a'' = [0, 0]
   \<and> length (registered (run (map (On (JStr ''a'')) [Some 0, Some 1, Some 2])
        (run [] (start (\<lambda>cb v. returns)))) ''a'') = 9
   \<and> registered (snd (once (JStr ''a'') (Some 0) (run [] (start (\<lambda>cb v. returns))))) ''a'' = [0]"
proof -
  have a: "''a'' \<noteq> []" "\<not> inherited ''a''"
    "\<not> prototype_written (run [] (start (\<lambda>cb v. returns)))"
    by (simp_all add: inherited_def start_def init_def)
  have w: "wrappers (start (\<lambda>cb v. returns)) ''a'' = 0"
    "registered (start (\<lambda>cb v. returns)) ''a'' = []"
    "eventManagerCore (start (\<lambda>cb v. returns)) = []"
    by (simp_all add: wrappers_def registered_def start_def init_def)
  show ?thesis
    using registry_entries [OF a, of "Some 0" "[Some 0, Some 1, Some 2]"]
    by (simp add: w)
qed

section \<open>The cache of topic streams\<close>

text \<open>
  C6 does not hold of the code for every valid name. \<^verbatim>\<open>observables\<close> is a plain
  object and \<^verbatim>\<open>observe\<close> tests \<^verbatim>\<open>!observables[event]\<close>: for \<^verbatim>\<open>'constructor'\<close>
  the test finds the inherited \<^verbatim>\<open>Object\<close> function, no stream is made or cached, and
  \<^verbatim>\<open>observe\<close> returns that function; a subscription to it, as \<^verbatim>\<open>on\<close> makes one,
  throws.
\<close>

theorem observe_inherited_name:
  "fst (observe (JStr ''constructor'') init) = Inr (Inherited ''constructor'')
   \<and> streams (snd (observe (JStr ''constructor'') init)) = []
   \<and> observables (snd (observe (JStr ''constructor'') init)) ''constructor'' = None
   \<and> fst (on (JStr ''constructor'') (Some 0) init) =
       Inl (TypeError ''Cannot read property call of undefined'')"
  by (simp add: eval_defs split_beta Let_def)

text \<open>An inherited key is a valid name. In every state the module can reach,
  \<^verbatim>\<open>observe\<close> returns the inherited object for it.\<close>

lemma inherited_valid: "inherited k \<Longrightarrow> \<not> isInvalidString (JStr k)"
  by (auto simp add: inherited_def)

lemma observe_inherited:
  assumes "inherited k"
  shows "fst (observe (JStr k) (run cs (start env))) = Inr (Inherited k)"
proof -
  have "inv_streams (run cs (start env))"
    using wf_reachable [of cs env] by (simp add: wf_def)
  from on_inherited(6) [OF this assms] show ?thesis .
qed

lemma topic_known: "observables s n = Some a \<Longrightarrow> fst (topic n s) = Topic a"
  by (simp add: topic_def)

lemma observables_keep_topic:
  "observables s n = Some a \<Longrightarrow> observables (snd (topic m s)) n = Some a"
  by (auto simp add: topic_def split: option.splits)

lemma observables_keep_observe:
  "observables s n = Some a \<Longrightarrow> observables (snd (observe e s)) n = Some a"
  by (simp add: observe_def split_beta observables_keep_topic)

lemma observables_keep:
  assumes "observables s n = Some a"
  shows "observables (apply_call c s) n = Some a"
proof (cases c)
  case (Change e cmp nxt)
  then show ?thesis
    using change_streams [of e cmp nxt s] assms observables_keep_observe [OF assms, of e]
    by auto
qed (simp_all add: assms observables_keep_observe)

lemma observables_keep_run:
  "observables s n = Some a \<Longrightarrow> observables (run cs s) n = Some a"
  by (induction cs arbitrary: s) (simp_all add: observables_keep)

text \<open>
  For the names that are not inherited keys the cache is as C6 says. In every state
  the module can reach, \<^verbatim>\<open>observe(n)\<close> for such a name \<open>n\<close> returns a topic stream;
  a later \<^verbatim>\<open>observe(n)\<close>, whatever was called in between, returns the same stream
  object, and \<^verbatim>\<open>observe(m)\<close> for another such name \<open>m\<close> returns a different one.
\<close>

lemma observe_cached_own:
  assumes "n \<noteq> []" "\<not> inherited n" "m \<noteq> []" "\<not> inherited m"
  shows "\<exists>a. fst (observe (JStr n) (run cs0 (start env))) = Inr (Topic a)
    \<and> fst (observe (JStr n) (run cs (snd (observe (JStr n) (run cs0 (start env)))))) = Inr (Topic a)
    \<and> (n \<noteq> m \<longrightarrow>
        fst (observe (JStr m) (run cs (snd (observe (JStr n) (run cs0 (start env)))))) \<noteq>
        Inr (Topic a))"
proof -
  let ?s0 = "run cs0 (start env)"
  let ?s1 = "run cs (snd (observe (JStr n) ?s0))"
  have st0: "inv_streams ?s0"
    using wf_reachable [of cs0 env] by (simp add: wf_def)
  from observe_stream [OF st0 assms(1,2)] obtain a where
    a: "fst (observe (JStr n) ?s0) = Inr (Topic a)"
    and an0: "observables (snd (observe (JStr n) ?s0)) n = Some a" by blast
  have "wf ?s1"
    using wf_reachable [of "cs0 @ Observe (JStr n) # cs" env] by simp
  then have st1: "inv_streams ?s1" by (simp add: wf_def)
  have an: "observables ?s1 n = Some a"
    by (rule observables_keep_run [OF an0])
  have same: "fst (observe (JStr n) ?s1) = Inr (Topic a)"
    using topic_known [OF an] by (simp add: observe_valid [OF assms(1)])
  have diff: "fst (observe (JStr m) ?s1) \<noteq> Inr (Topic a)" if "n \<noteq> m"
  proof
    assume eq: "fst (observe (JStr m) ?s1) = Inr (Topic a)"
    let ?s2 = "snd (observe (JStr m) ?s1)"
    have st2: "inv_streams ?s2" by (rule inv_streams_observe [OF st1])
    from observe_stream [OF st1 assms(3,4)] eq have "observables ?s2 m = Some a"
      by auto
    from inv_streamsD [OF st2 this] inv_streamsD [OF st2 observables_keep_observe [OF an]]
    show False
      using that by simp
  qed
  from a same diff show ?thesis by blast
qed

section \<open>Subscribers over a run\<close>

lemma extends_core:
  assumes "extends s s'" "h < length (eventManagerCore s)"
  shows "h < length (eventManagerCore s') \<and> eventManagerCore s' ! h = eventManagerCore s ! h"
proof -
  from assms(1) consider "eventManagerCore s' = eventManagerCore s"
    | sub where "eventManagerCore s' = eventManagerCore s @ [sub]"
    unfolding extends_def subscribed_def by blast
  then show ?thesis
    using assms(2) by cases (simp_all add: nth_append)
qed

lemma extends_length: "extends s s' \<Longrightarrow> length (eventManagerCore s) \<le> length (eventManagerCore s')"
  unfolding extends_def subscribed_def by auto

lemma extends_received: "extends s s' \<Longrightarrow> received s' h = received s h"
  by (simp add: extends_def received_def)

lemma peek_same:
  assumes "latestEventData s' = latestEventData s" "latest_objects s' = latest_objects s"
  shows "peek s' n = peek s n"
  unfolding peek_def assms ..

lemma extends_peek: "extends s s' \<Longrightarrow> peek s' n = peek s n"
  by (rule peek_same) (simp_all add: extends_def)

lemma offAll_nth:
  assumes "h < length (eventManagerCore s)"
  shows "eventManagerCore (snd (offAll s)) ! h = eventManagerCore s ! h
       \<or> eventManagerCore (snd (offAll s)) ! h = (eventManagerCore s ! h)\<lparr>sub_closed := True\<rparr>"
proof -
  let ?x = "eventManagerCore s ! h"
  let ?P = "\<lambda>s'. h < length (eventManagerCore s')
     \<and> (eventManagerCore s' ! h = ?x \<or> eventManagerCore s' ! h = ?x\<lparr>sub_closed := True\<rparr>)"
  have "?P (fold (\<lambda>event s'. snd (off event s')) (map fst (subscriptions s)) s)"
  proof (rule fold_off_preserves [of ?P])
    fix s' :: manager and n assume "?P s'"
    then show "?P (snd (off n s'))" by (auto simp add: off_nth)
  next
    show "?P s" using assms by simp
  qed
  then show ?thesis by (simp add: offAll_def)
qed

text \<open>What a call can do to a subscriber that exists.\<close>

lemma subscriber_step:
  assumes "inv_streams s" "h < length (eventManagerCore s)"
  shows "h < length (eventManagerCore (apply_call c s))
    \<and> (eventManagerCore (apply_call c s) ! h = eventManagerCore s ! h
       \<or> eventManagerCore (apply_call c s) ! h = (eventManagerCore s ! h)\<lparr>sub_closed := True\<rparr>
       \<or> (\<exists>e d. eventManagerCore (apply_call c s) ! h =
                   fst (receive (callbacks s) e d h (eventManagerCore s ! h))))"
proof (rule call_cases [OF assms(1), of c], goal_cases)
  case 1
  from extends_core [OF this assms(2)] show ?case by simp
next
  case (2 e d)
  show ?case
  proof (cases e d s rule: fire_cases)
    case invalid
    with 2 assms(2) show ?thesis by simp
  next
    case (valid n)
    with 2 assms(2) show ?thesis
      by (auto simp add: fire_nth)
  qed
next
  case (3 n)
  with assms(2) show ?case by (simp add: off_nth)
next
  case 4
  with assms(2) offAll_nth [OF assms(2)] show ?case by auto
next
  case (5 k)
  with assms(2) show ?case by (simp add: unsubscribe_nth)
next
  case 6
  with assms(2) tick_nth [of s h] show ?case by auto
qed




lemma received_offAll [simp]: "received (snd (offAll s)) h = received s h"
  by (simp add: received_def)

lemma received_fire_closed:
  "sub_closed (eventManagerCore s ! h) \<Longrightarrow> received (snd (fire e d s)) h = received s h"
  by (cases e d s rule: fire_cases) (auto simp add: received_fire hears_def)

text \<open>A closed subscription stays closed and receives nothing any more.\<close>

lemma closed_step:
  assumes "inv_streams s" "h < length (eventManagerCore s)" "sub_closed (eventManagerCore s ! h)"
  shows "h < length (eventManagerCore (apply_call c s))
    \<and> sub_closed (eventManagerCore (apply_call c s) ! h)
    \<and> received (apply_call c s) h = received s h"
proof -
  have core: "h < length (eventManagerCore (apply_call c s))
      \<and> sub_closed (eventManagerCore (apply_call c s) ! h)"
    using subscriber_step [OF assms(1,2), of c] assms(3) receive_stays_closed [OF assms(3)]
    by auto
  have "received (apply_call c s) h = received s h"
  proof (rule call_cases [OF assms(1), of c], goal_cases)
    case 1
    then show ?case by (rule extends_received)
  next
    case (2 e d)
    then show ?case by (simp add: received_fire_closed [OF assms(3)])
  next
    case 6
    then show ?case by (simp add: tick_closed [OF assms(3)])
  qed simp_all
  with core show ?thesis by simp
qed

lemma closed_run:
  assumes "wf s" "h < length (eventManagerCore s)" "sub_closed (eventManagerCore s ! h)"
  shows "h < length (eventManagerCore (run cs s))
    \<and> sub_closed (eventManagerCore (run cs s) ! h)
    \<and> received (run cs s) h = received s h"
  using assms
proof (induction cs arbitrary: s)
  case Nil
  then show ?case by simp
next
  case (Cons c cs)
  from Cons.prems(1) have st: "inv_streams s" by (simp add: wf_def)
  from closed_step [OF st Cons.prems(2,3), of c]
  have a: "h < length (eventManagerCore (apply_call c s))"
    and b: "sub_closed (eventManagerCore (apply_call c s) ! h)"
    and c: "received (apply_call c s) h = received s h" by simp_all
  from Cons.IH [OF wf_apply_call [OF Cons.prems(1)] a b] c show ?case by simp
qed

section \<open>A once listener\<close>




section \<open>Replay by latest\<close>

lemma inv_latestD:
  "inv_latest s \<Longrightarrow> latestEventData s n = Some r \<Longrightarrow>
     r < length (latest_objects s) \<and> hasValue (latest_objects s ! r) \<and> \<not> inherited n"
  by (simp add: inv_latest_def)

lemma inv_latest_inj:
  "inv_latest s \<Longrightarrow> latestEventData s n = Some r \<Longrightarrow> latestEventData s m = Some r \<Longrightarrow> n = m"
  unfolding inv_latest_def by blast

lemma peek_record:
  assumes "inv_latest s"
  shows "peek s n = Some v \<longleftrightarrow>
     (\<exists>r. latestEventData s n = Some r \<and> latest_value (latest_objects s ! r) = v)"
  using inv_latestD [OF assms, of n]
  by (auto simp add: peek_def split: option.splits)

lemma peek_own: "inv_latest s \<Longrightarrow> peek s n = Some v \<Longrightarrow> \<not> inherited n"
  using inv_latestD [of s n] by (auto simp add: peek_def split: option.splits)

lemma scheduled_peek_Some:
  "peek s n = Some v \<Longrightarrow>
     \<exists>r. latestEventData s n = Some r \<and> scheduled s n h = [(h, r)]
        \<and> latest_value (latest_objects s ! r) = v"
  by (auto simp add: peek_def scheduled_def split: option.splits if_splits)

lemma scheduled_peek_None: "peek s n = None \<Longrightarrow> scheduled s n h = []"
  by (auto simp add: peek_def scheduled_def split: option.splits if_splits)

lemma calls_fresh:
  "inv_calls s \<Longrightarrow> received s (length (eventManagerCore s)) = []"
  by (rule received_fresh) (simp add: inv_calls_def)

lemma run_immediate_sub_next [simp]:
  "sub_next (eventManagerCore (fst (run_immediate t s)) ! k) = sub_next (eventManagerCore s ! k)"
  using run_immediate_nth [of t s k] by auto

lemma would_throw_run_immediate [simp]:
  "would_throw (fst (run_immediate t s)) t' = would_throw s t'"
  by (simp add: would_throw_def split: option.splits)

lemma would_throw_immediates_update [simp]: "would_throw (s\<lparr>immediates := ts\<rparr>) = would_throw s"
  by (rule ext) (simp add: would_throw_def split: option.splits)

text \<open>The queued callbacks run one after the other as long as none throws.\<close>

lemma run_immediates_append:
  "\<forall>t \<in> set pre. \<not> would_throw s t \<Longrightarrow>
     run_immediates (pre @ rest) s = run_immediates rest (run_immediates pre s)"
proof (induction pre arbitrary: s)
  case Nil
  then show ?case by simp
next
  case (Cons t pre)
  from Cons.prems run_immediate_thrown [of t s] have "\<not> snd (run_immediate t s)" by auto
  moreover have "\<forall>t' \<in> set pre. \<not> would_throw (fst (run_immediate t s)) t'"
    using Cons.prems by simp
  ultimately show ?case
    using Cons.IH [of "fst (run_immediate t s)"] by (simp add: split_beta)
qed

lemma run_immediate_delivers:
  assumes "\<not> sub_closed (eventManagerCore s ! h)" "sub_next (eventManagerCore s ! h) = Some cb"
  shows "received (fst (run_immediate (h, r) s)) h =
           received s h @ [latest_value (latest_objects s ! r)]"
  using assms by (simp add: received_def run_immediate_calls replay_def call_next_def)

lemma replay_delivered:
  assumes "\<forall>t \<in> set pre. \<not> would_throw s t" "h \<notin> fst ` set pre" "h \<notin> fst ` set post"
    and "\<not> sub_closed (eventManagerCore s ! h)" "sub_next (eventManagerCore s ! h) = Some cb"
  shows "received (run_immediates (pre @ (h, r) # post) s) h =
           received s h @ [latest_value (latest_objects s ! r)]"
proof -
  let ?s1 = "run_immediates pre s"
  let ?s2 = "fst (run_immediate (h, r) ?s1)"
  note pre = run_immediates_other [OF assms(2), of s]
  have d: "received ?s2 h = received s h @ [latest_value (latest_objects s ! r)]"
    using run_immediate_delivers [of ?s1 h cb r] assms(4,5) pre by simp
  have "received (run_immediates ((h, r) # post) ?s1) h = received ?s2 h"
    using run_immediates_other [OF assms(3), of ?s2]
    by (cases "snd (run_immediate (h, r) ?s1)") (simp_all add: split_beta)
  with d show ?thesis
    by (simp add: run_immediates_append [OF assms(1)])
qed

text \<open>Between two turns of the event loop the queue only grows, by callbacks for
  new subscriptions.\<close>

lemma core_length_step:
  assumes "inv_streams s"
  shows "length (eventManagerCore s) \<le> length (eventManagerCore (apply_call c s))"
  by (rule call_cases [OF assms, of c]) (auto dest: extends_length)

lemma queue_step:
  assumes "inv_streams s" "c \<noteq> Tick"
  shows "\<exists>extra. immediates (apply_call c s) = immediates s @ extra
      \<and> (\<forall>t \<in> set extra. length (eventManagerCore s) \<le> fst t)"
proof (rule call_cases [OF assms(1), of c], goal_cases)
  case 1
  then have "immediates (apply_call c s) = immediates s
      \<or> (\<exists>r. immediates (apply_call c s) = immediates s @ [(length (eventManagerCore s), r)])"
    unfolding extends_def by blast
  then show ?case by auto
next
  case 6
  with assms(2) show ?case by simp
qed auto

lemma queue_run:
  assumes "wf s" "Tick \<notin> set cs"
  shows "\<exists>extra. immediates (run cs s) = immediates s @ extra
      \<and> (\<forall>t \<in> set extra. length (eventManagerCore s) \<le> fst t)"
  using assms
proof (induction cs arbitrary: s)
  case Nil
  then show ?case by simp
next
  case (Cons c cs)
  from Cons.prems(1) have st: "inv_streams s" by (simp add: wf_def)
  from Cons.prems(2) have c: "c \<noteq> Tick" and cs: "Tick \<notin> set cs" by auto
  from queue_step [OF st c] obtain e1 where
    e1: "immediates (apply_call c s) = immediates s @ e1"
    "\<forall>t \<in> set e1. length (eventManagerCore s) \<le> fst t" by blast
  from Cons.IH [OF wf_apply_call [OF Cons.prems(1)] cs] obtain e2 where
    e2: "immediates (run cs (apply_call c s)) = immediates (apply_call c s) @ e2"
    "\<forall>t \<in> set e2. length (eventManagerCore (apply_call c s)) \<le> fst t" by blast
  from e1 e2 core_length_step [OF st, of c]
  have "immediates (run (c # cs) s) = immediates s @ (e1 @ e2)
      \<and> (\<forall>t \<in> set (e1 @ e2). length (eventManagerCore s) \<le> fst t)"
    by auto
  then show ?case by blast
qed

lemma sub_next_step:
  assumes "inv_streams s" "h < length (eventManagerCore s)"
  shows "h < length (eventManagerCore (apply_call c s))
    \<and> sub_next (eventManagerCore (apply_call c s) ! h) = sub_next (eventManagerCore s ! h)"
  using subscriber_step [OF assms, of c] by auto

lemma sub_next_run:
  assumes "wf s" "h < length (eventManagerCore s)"
  shows "h < length (eventManagerCore (run cs s))
    \<and> sub_next (eventManagerCore (run cs s) ! h) = sub_next (eventManagerCore s ! h)"
  using assms
proof (induction cs arbitrary: s)
  case Nil
  then show ?case by simp
next
  case (Cons c cs)
  from Cons.prems(1) have st: "inv_streams s" by (simp add: wf_def)
  from sub_next_step [OF st Cons.prems(2), of c]
    Cons.IH [OF wf_apply_call [OF Cons.prems(1)], of c]
  show ?case by simp
qed

text \<open>The latest-value record of a name over a run without \<^verbatim>\<open>off\<close> for it: the same
  object, holding the data of the last \<^verbatim>\<open>fire\<close>.\<close>

lemma fire_record_kept:
  assumes "latestEventData s n = Some r"
  shows "latestEventData (snd (fire e d s)) n = Some r"
proof (cases e d s rule: fire_cases)
  case invalid
  with assms show ?thesis by simp
next
  case (valid m)
  show ?thesis
  proof (cases "latestEventData s m")
    case None
    with assms have "m \<noteq> n" by auto
    with None assms valid show ?thesis
      by (cases "inherited m") (simp_all add: fire_latest fire_latest_inherited)
  next
    case (Some r')
    with assms valid show ?thesis by (simp add: fire_latest_own)
  qed
qed

lemma peek_fire_same:
  assumes "inv_latest s" "n \<noteq> []" "\<not> inherited n"
  shows "peek (snd (fire (JStr n) d s)) n = Some d"
proof (cases "latestEventData s n")
  case None
  then show ?thesis by (simp add: peek_def fire_latest [OF assms(2,3)])
next
  case (Some r)
  with inv_latestD [OF assms(1) Some] show ?thesis
    by (simp add: peek_def fire_latest [OF assms(2,3)])
qed

lemma peek_fire_other:
  assumes "inv_latest s" "m \<noteq> []" "m \<noteq> n"
  shows "peek (snd (fire (JStr m) d s)) n = peek s n"
proof (cases "latestEventData s m")
  case None
  show ?thesis
  proof (cases "inherited m")
    case True
    with None show ?thesis
      by (intro peek_same) (simp_all add: fire_latest_inherited)
  next
    case False
    show ?thesis
    proof (cases "latestEventData s n")
      case None
      with \<open>latestEventData s m = None\<close> assms(3) show ?thesis
        by (simp add: peek_def fire_latest [OF assms(2) False])
    next
      case (Some r)
      with inv_latestD [OF assms(1) Some] \<open>latestEventData s m = None\<close> assms(3) show ?thesis
        by (simp add: peek_def fire_latest [OF assms(2) False] nth_append)
    qed
  qed
next
  case (Some r')
  show ?thesis
  proof (cases "latestEventData s n")
    case None
    with Some show ?thesis
      by (simp add: peek_def fire_latest_own [OF assms(2) Some])
  next
    case n: (Some r)
    have "r' \<noteq> r"
      using inv_latest_inj [OF assms(1) n, of m] Some assms(3) by auto
    with Some n show ?thesis
      by (simp add: peek_def fire_latest_own [OF assms(2) Some])
  qed
qed

lemma peek_off: "peek (snd (off m s)) n = (if m = n then None else peek s n)"
  by (simp add: peek_def split: option.splits)

lemma peek_fold_off:
  "peek (fold (\<lambda>event s'. snd (off event s')) ks s) n = (if n \<in> set ks then None else peek s n)"
  by (induction ks arbitrary: s) (auto simp add: peek_off)

lemma peek_offAll:
  "peek (snd (offAll s)) n = (if n \<in> set (map fst (subscriptions s)) then None else peek s n)"
  by (simp add: offAll_def peek_fold_off)

lemma record_fold_off:
  "n \<notin> set ks \<Longrightarrow>
     latestEventData (fold (\<lambda>event s'. snd (off event s')) ks s) n = latestEventData s n"
  by (induction ks arbitrary: s) auto

lemma step_without_off:
  assumes "wf s" "peek s n = Some v" "latestEventData s n = Some r" "\<not> performs_off n c s"
    and ne: "n \<noteq> []"
  shows "peek (apply_call c s) n = Some (last_fired n v [c])
    \<and> latestEventData (apply_call c s) n = Some r"
proof -
  have st: "inv_streams s" and la: "inv_latest s" using assms(1) by (simp_all add: wf_def)
  have own: "\<not> inherited n" by (rule peek_own [OF la assms(2)])
  have ext: "peek (apply_call c s) n = Some (last_fired n v [c])
      \<and> latestEventData (apply_call c s) n = Some r"
    if "extends s (apply_call c s)" "last_fired n v [c] = v"
    using that extends_peek [OF that(1), of n] assms(2,3) by (simp add: extends_def)
  show ?thesis
  proof (cases c)
    case (Observe e)
    with extends_apply_call [OF st, of c e] ext show ?thesis by simp
  next
    case (Subscribe a nxt)
    with extends_apply_call [OF st, of c _ a nxt] ext show ?thesis by simp
  next
    case (Derive a oper nxt)
    with extends_apply_call [OF st, of c _ a nxt oper] ext show ?thesis by simp
  next
    case (On e nxt)
    with extends_apply_call [OF st, of c e _ nxt] ext show ?thesis by simp
  next
    case (Once e nxt)
    with extends_apply_call [OF st, of c e _ nxt] ext show ?thesis by simp
  next
    case (Latest e nxt)
    with extends_apply_call [OF st, of c e _ nxt] ext show ?thesis by simp
  next
    case (Change e cmp nxt)
    with extends_apply_call [OF st, of c e _ nxt _ cmp] ext show ?thesis by simp
  next
    case (Fire e d)
    show ?thesis
    proof (cases e d s rule: fire_cases)
      case invalid
      with Fire assms(2,3) ne show ?thesis by auto
    next
      case (valid m)
      with Fire assms(2) peek_fire_same [OF la _ own, of d] peek_fire_other [OF la valid(2), of n d]
        fire_record_kept [OF assms(3), of e d]
      show ?thesis by (cases "m = n") simp_all
    qed
  next
    case (Off m)
    with assms(2,3,4) show ?thesis by (simp add: peek_off performs_off_def)
  next
    case OffAll
    with assms(4) have k: "n \<notin> set (map fst (subscriptions s))"
      by (simp add: performs_off_def)
    have "peek (snd (offAll s)) n = Some v"
      using assms(2) k by (simp add: peek_offAll)
    moreover have "latestEventData (snd (offAll s)) n = Some r"
      using assms(3) record_fold_off [OF k, of s] by (simp add: offAll_def)
    ultimately show ?thesis using OffAll by simp
  next
    case (Unsubscribe k)
    with assms(2,3) peek_same [of "unsubscribe k s" s n] show ?thesis by simp
  next
    case Tick
    with assms(2,3) peek_same [of "tick s" s n] show ?thesis by simp
  qed
qed

lemma last_fired_Cons: "last_fired n v (c # cs) = last_fired n (last_fired n v [c]) cs"
  by (cases c) simp_all

lemma run_without_off:
  assumes "wf s" "peek s n = Some v" "latestEventData s n = Some r" "no_off n cs s"
    and ne: "n \<noteq> []"
  shows "peek (run cs s) n = Some (last_fired n v cs) \<and> latestEventData (run cs s) n = Some r"
  using assms(1-4)
proof (induction cs arbitrary: s v)
  case Nil
  then show ?case by simp
next
  case (Cons c cs)
  from Cons.prems(4) have c: "\<not> performs_off n c s" and cs: "no_off n cs (apply_call c s)"
    by simp_all
  from step_without_off [OF Cons.prems(1-3) c ne]
  have p: "peek (apply_call c s) n = Some (last_fired n v [c])"
    and r: "latestEventData (apply_call c s) n = Some r" by simp_all
  from Cons.IH [OF wf_apply_call [OF Cons.prems(1)] p r cs]
  show ?case by (simp add: last_fired_Cons [of n v c cs])
qed

lemma latest_replay:
  assumes "wf s" "n \<noteq> []" "peek s n = Some v"
  shows "\<exists>r. latestEventData s n = Some r
      \<and> latest_value (latest_objects s ! r) = v
      \<and> immediates (snd (latest (JStr n) (Some cb) s)) =
          immediates s @ [(length (eventManagerCore s), r)]"
    and "fst (latest (JStr n) (Some cb) s) = Inr (Subscription (length (eventManagerCore s)))"
    and "eventManagerCore (snd (latest (JStr n) (Some cb) s)) = eventManagerCore s @
          [\<lparr>sub_event = n, sub_operator = Direct, sub_next = Some cb, sub_closed = False\<rparr>]"
    and "registered (snd (latest (JStr n) (Some cb) s)) n =
           registered s n @ replicate (wrappers s n + 2) (length (eventManagerCore s))"
proof -
  have st: "inv_streams s" and la: "inv_latest s" using assms(1) by (simp_all add: wf_def)
  have own: "\<not> inherited n" by (rule peek_own [OF la assms(3)])
  note eff = latest_effect [OF st assms(2) own, of cb]
  from scheduled_peek_Some [OF assms(3), of "length (eventManagerCore s)"] eff(4)
  show "\<exists>r. latestEventData s n = Some r
      \<and> latest_value (latest_objects s ! r) = v
      \<and> immediates (snd (latest (JStr n) (Some cb) s)) =
          immediates s @ [(length (eventManagerCore s), r)]"
    by auto
  show "fst (latest (JStr n) (Some cb) s) = Inr (Subscription (length (eventManagerCore s)))"
    by (rule eff(1))
  show "eventManagerCore (snd (latest (JStr n) (Some cb) s)) = eventManagerCore s @
          [\<lparr>sub_event = n, sub_operator = Direct, sub_next = Some cb, sub_closed = False\<rparr>]"
    by (rule eff(2))
  show "registered (snd (latest (JStr n) (Some cb) s)) n =
           registered s n @ replicate (wrappers s n + 2) (length (eventManagerCore s))"
    by (simp add: eff(3))
qed

text \<open>The turn of the event loop that follows \<^verbatim>\<open>latest\<close>, after any calls in
  between.\<close>

lemma replay_after:
  assumes "wf s" "n \<noteq> []" "peek s n = Some v" "latestEventData s n = Some r"
    and "Tick \<notin> set cs'"
    and "\<not> sub_closed (eventManagerCore (run cs' (snd (latest (JStr n) (Some cb) s)))
           ! length (eventManagerCore s))"
    and "\<forall>t \<in> set (immediates s). \<not> would_throw (run cs' (snd (latest (JStr n) (Some cb) s))) t"
  shows "received (tick (run cs' (snd (latest (JStr n) (Some cb) s)))) (length (eventManagerCore s)) =
     received (run cs' (snd (latest (JStr n) (Some cb) s))) (length (eventManagerCore s))
       @ [latest_value (latest_objects (run cs' (snd (latest (JStr n) (Some cb) s))) ! r)]"
proof -
  let ?h = "length (eventManagerCore s)"
  let ?s' = "snd (latest (JStr n) (Some cb) s)"
  let ?s'' = "run cs' ?s'"
  have im: "inv_imm s" using assms(1) by (simp add: wf_def)
  have wf': "wf ?s'"
    using wf_apply_call [OF assms(1), of "Latest (JStr n) (Some cb)"] by simp
  from latest_replay(1) [OF assms(1-3), of cb] assms(4)
  have q: "immediates ?s' = immediates s @ [(?h, r)]" by auto
  have core: "eventManagerCore ?s' = eventManagerCore s @
          [\<lparr>sub_event = n, sub_operator = Direct, sub_next = Some cb, sub_closed = False\<rparr>]"
    by (rule latest_replay(3) [OF assms(1-3)])
  from queue_run [OF wf' assms(5)] obtain extra where
    extra: "immediates ?s'' = immediates ?s' @ extra"
    "\<forall>t \<in> set extra. length (eventManagerCore ?s') \<le> fst t" by blast
  have nx: "sub_next (eventManagerCore ?s'' ! ?h) = Some cb"
    using sub_next_run [OF wf', of ?h cs'] by (simp add: core)
  have pre: "?h \<notin> fst ` set (immediates s)"
    using im by (auto simp add: inv_imm_def)
  have post: "?h \<notin> fst ` set extra"
    using extra(2) by (auto simp add: core)
  have "received (run_immediates (immediates s @ (?h, r) # extra) (?s''\<lparr>immediates := []\<rparr>)) ?h =
      received (?s''\<lparr>immediates := []\<rparr>) ?h
        @ [latest_value (latest_objects (?s''\<lparr>immediates := []\<rparr>) ! r)]"
    by (rule replay_delivered [where cb = cb]) (use assms(6,7) pre post nx in simp_all)
  then show ?thesis
    by (simp add: tick_def extra(1) q)
qed

text \<open>C4 as stated fails when \<^verbatim>\<open>fire\<close> is called between \<^verbatim>\<open>latest\<close> and the next
  turn of the event loop: the queued callback reads \<^verbatim>\<open>latestData.value\<close> when it
  runs. After \<^verbatim>\<open>fire('a', 42)\<close>, \<^verbatim>\<open>latest('a', cb)\<close>, \<^verbatim>\<open>fire('a', 43)\<close> and one
  turn, \<open>cb\<close> has been invoked with 43 by the \<^verbatim>\<open>fire\<close> and with 43 again by the
  replay; the value 42 that was stored when \<^verbatim>\<open>latest\<close> was called is never
  delivered.\<close>

theorem latest_replays_newer_value_counterexample:
  "peek (run [Fire (JStr ''a'') (JNum 42)] init) ''a'' = Some (JNum 42)
   \<and> received (run [Fire (JStr ''a'') (JNum 42), Latest (JStr ''a'') (Some 0),
        Fire (JStr ''a'') (JNum 43), Tick] init) 0 = [JNum 43, JNum 43]"
  by (simp add: peek_def eval_defs split_beta Let_def)

text \<open>
  C4, as amended. In every state the module can reach in which a value \<open>v\<close> is
  recorded for the non-empty name \<open>n\<close>, \<^verbatim>\<open>latest(n, cb)\<close> returns a new subscription
  of \<open>cb\<close> to the topic of \<open>n\<close>; when it returns no callback has been invoked by it
  and exactly one \<^verbatim>\<open>setImmediate\<close> callback, for the new subscription and the
  latest-value object of \<open>n\<close>, has been queued. Whatever is called before the next
  turn of the event loop (without writing to \<^verbatim>\<open>Object.prototype\<close>), that turn
  invokes \<open>cb\<close> exactly once more, with the value the object holds then, provided the
  subscription is still open and no callback queued before it throws; the value is the
  data of the last \<^verbatim>\<open>fire\<close> on \<open>n\<close> in between, and \<open>v\<close> when there is none, as
  long as \<^verbatim>\<open>off(n)\<close> has not run. If the subscription has been closed, the turn
  invokes nothing for it. With nothing called in between, \<open>cb\<close> is invoked with \<open>v\<close>,
  and that is all it has received.
\<close>

theorem latest_replays_after_return:
  assumes "n \<noteq> []" "peek (run cs (start env)) n = Some v" "Tick \<notin> set cs'"
    and "\<not> prototype_written (run cs' (snd (latest (JStr n) (Some cb) (run cs (start env)))))"
  shows "fst (latest (JStr n) (Some cb) (run cs (start env))) =
           Inr (Subscription (length (eventManagerCore (run cs (start env)))))
    \<and> eventManagerCore (snd (latest (JStr n) (Some cb) (run cs (start env)))) =
        eventManagerCore (run cs (start env)) @
          [\<lparr>sub_event = n, sub_operator = Direct, sub_next = Some cb, sub_closed = False\<rparr>]
    \<and> calls (snd (latest (JStr n) (Some cb) (run cs (start env)))) = calls (run cs (start env))
    \<and> (\<exists>r. latestEventData (run cs (start env)) n = Some r
          \<and> immediates (snd (latest (JStr n) (Some cb) (run cs (start env)))) =
              immediates (run cs (start env)) @ [(length (eventManagerCore (run cs (start env))), r)]
          \<and> (\<not> sub_closed (eventManagerCore
                  (run cs' (snd (latest (JStr n) (Some cb) (run cs (start env)))))
                    ! length (eventManagerCore (run cs (start env))))
              \<and> (\<forall>t \<in> set (immediates (run cs (start env))).
                    \<not> would_throw (run cs' (snd (latest (JStr n) (Some cb) (run cs (start env))))) t)
              \<longrightarrow>
              received (tick (run cs' (snd (latest (JStr n) (Some cb) (run cs (start env))))))
                  (length (eventManagerCore (run cs (start env)))) =
                received (run cs' (snd (latest (JStr n) (Some cb) (run cs (start env)))))
                  (length (eventManagerCore (run cs (start env))))
                @ [latest_value (latest_objects
                     (run cs' (snd (latest (JStr n) (Some cb) (run cs (start env))))) ! r)])
          \<and> (no_off n cs' (snd (latest (JStr n) (Some cb) (run cs (start env)))) \<longrightarrow>
                latest_value (latest_objects
                  (run cs' (snd (latest (JStr n) (Some cb) (run cs (start env))))) ! r) =
                last_fired n v cs'))
    \<and> (sub_closed (eventManagerCore
            (run cs' (snd (latest (JStr n) (Some cb) (run cs (start env)))))
              ! length (eventManagerCore (run cs (start env)))) \<longrightarrow>
        received (tick (run cs' (snd (latest (JStr n) (Some cb) (run cs (start env))))))
            (length (eventManagerCore (run cs (start env)))) =
          received (run cs' (snd (latest (JStr n) (Some cb) (run cs (start env)))))
            (length (eventManagerCore (run cs (start env)))))
    \<and> ((\<forall>t \<in> set (immediates (run cs (start env))).
            \<not> would_throw (snd (latest (JStr n) (Some cb) (run cs (start env)))) t) \<longrightarrow>
        received (tick (snd (latest (JStr n) (Some cb) (run cs (start env)))))
            (length (eventManagerCore (run cs (start env)))) = [v])"
proof -
  let ?s = "run cs (start env)"
  let ?h = "length (eventManagerCore ?s)"
  let ?s' = "snd (latest (JStr n) (Some cb) ?s)"
  let ?s'' = "run cs' ?s'"
  have wf: "wf ?s" by (rule wf_reachable)
  have wf': "wf ?s'"
    using wf_apply_call [OF wf, of "Latest (JStr n) (Some cb)"] by simp
  have wf'': "wf ?s''" by (rule wf_run [OF wf'])
  note lr = latest_replay [OF wf assms(1,2), of cb]
  from lr(1) obtain r where r: "latestEventData ?s n = Some r"
    "latest_value (latest_objects ?s ! r) = v"
    "immediates ?s' = immediates ?s @ [(?h, r)]" by blast
  have p': "peek ?s' n = Some v" and r': "latestEventData ?s' n = Some r"
    using assms(2) r(1) peek_same [of ?s' ?s n] by simp_all
  have a: "\<not> sub_closed (eventManagerCore ?s'' ! ?h)
        \<and> (\<forall>t \<in> set (immediates ?s). \<not> would_throw ?s'' t) \<longrightarrow>
      received (tick ?s'') ?h =
        received ?s'' ?h @ [latest_value (latest_objects ?s'' ! r)]"
    using replay_after [OF wf assms(1,2) r(1) assms(3), of cb] by blast
  have b: "latest_value (latest_objects ?s'' ! r) = last_fired n v cs'" if "no_off n cs' ?s'"
  proof -
    from run_without_off [OF wf' p' r' that assms(1)]
    have "peek ?s'' n = Some (last_fired n v cs')" "latestEventData ?s'' n = Some r"
      by simp_all
    with wf'' show ?thesis
      by (auto simp add: wf_def peek_record)
  qed
  have c: "received (tick ?s'') ?h = received ?s'' ?h"
    if "sub_closed (eventManagerCore ?s'' ! ?h)"
    using tick_closed [OF that] by simp
  have d: "received (tick ?s') ?h = [v]" if "\<forall>t \<in> set (immediates ?s). \<not> would_throw ?s' t"
  proof -
    have "received ?s' ?h = []"
      using calls_fresh [of ?s] wf by (simp add: wf_def received_def)
    moreover have "latest_value (latest_objects ?s' ! r) = v"
      using r(2) by simp
    ultimately show ?thesis
      using replay_after [OF wf assms(1,2) r(1), of "[]" cb] that by (simp add: lr(3))
  qed
  from r a b have e: "\<exists>r. latestEventData ?s n = Some r
      \<and> immediates ?s' = immediates ?s @ [(?h, r)]
      \<and> (\<not> sub_closed (eventManagerCore ?s'' ! ?h)
            \<and> (\<forall>t \<in> set (immediates ?s). \<not> would_throw ?s'' t) \<longrightarrow>
          received (tick ?s'') ?h =
            received ?s'' ?h @ [latest_value (latest_objects ?s'' ! r)])
      \<and> (no_off n cs' ?s' \<longrightarrow> latest_value (latest_objects ?s'' ! r) = last_fired n v cs')"
    by blast
  have f: "calls ?s' = calls ?s" by simp
  from lr(2,3) f e c d show ?thesis
    by blast
qed

theorem latest_replays_after_return_witness:
  "peek (run [Fire (JStr ''a'') (JNum 42)] (start (\<lambda>cb v. returns))) ''a'' = Some (JNum 42)
   \<and> calls (snd (latest (JStr ''a'') (Some 0)
        (run [Fire (JStr ''a'') (JNum 42)] (start (\<lambda>cb v. returns))))) = []
   \<and> received (tick (snd (latest (JStr ''a'') (Some 0)
        (run [Fire (JStr ''a'') (JNum 42)] (start (\<lambda>cb v. returns)))))) 0 = [JNum 42]"
proof -
  have p: "peek (run [Fire (JStr ''a'') (JNum 42)] (start (\<lambda>cb v. returns))) ''a'' =
      Some (JNum 42)"
    by (simp add: peek_def eval_defs split_beta Let_def)
  have n: "''a'' \<noteq> []" and t: "Tick \<notin> set []" by simp_all
  have w: "\<not> prototype_written (run [] (snd (latest (JStr ''a'') (Some 0)
      (run [Fire (JStr ''a'') (JNum 42)] (start (\<lambda>cb v. returns))))))"
    by (simp add: eval_defs split_beta Let_def)
  show ?thesis
    using p latest_replays_after_return [OF n p t w]
    by (simp add: eval_defs split_beta Let_def)
qed

section \<open>The latest-value record\<close>

text \<open>
  C7 does not hold of the code for every name. \<^verbatim>\<open>latestEventData\<close> is a plain object
  and \<^verbatim>\<open>fire\<close> tests \<^verbatim>\<open>!latestEventData[event]\<close>: for \<^verbatim>\<open>'toString'\<close> the test
  finds the inherited function, no record is made, \<^verbatim>\<open>hasValue\<close> never becomes true,
  and a later \<^verbatim>\<open>latest('toString', cb)\<close> has nothing to read (it throws when it
  subscribes).
\<close>

theorem fire_inherited_name:
  "fst (fire (JStr ''toString'') (JNum 5) init) = Inr ()
   \<and> latestEventData (snd (fire (JStr ''toString'') (JNum 5) init)) ''toString'' = None
   \<and> latest_objects (snd (fire (JStr ''toString'') (JNum 5) init)) = []
   \<and> peek (snd (fire (JStr ''toString'') (JNum 5) init)) ''toString'' = None
   \<and> fst (latest (JStr ''toString'') (Some 0) (snd (fire (JStr ''toString'') (JNum 5) init))) =
       Inl (TypeError ''Cannot read property call of undefined'')"
  by (simp add: peek_def eval_defs split_beta Let_def)

text \<open>The same in every state the module can reach, for every inherited name.\<close>

lemma fire_inherited:
  assumes "inherited k"
  shows "peek (snd (fire (JStr k) d (run cs (start env)))) k = None"
proof -
  let ?s = "run cs (start env)"
  have "inv_latest ?s" using wf_reachable [of cs env] by (simp add: wf_def)
  with assms have "latestEventData ?s k = None"
    using inv_latestD [of ?s k] by (cases "latestEventData ?s k") auto
  with assms show ?thesis
    by (simp add: peek_def fire_latest_inherited)
qed

text \<open>
  For the names that are not inherited keys the record is as C7 says. In every state
  the module can reach, \<^verbatim>\<open>fire(n, d)\<close> for such a name \<open>n\<close> leaves a record for \<open>n\<close>
  with \<^verbatim>\<open>hasValue\<close> true and the value \<open>d\<close>. Through every later sequence of calls
  in which \<^verbatim>\<open>off(n)\<close> is not run (by the caller, or by \<^verbatim>\<open>offAll\<close> when \<open>n\<close> has a
  collection of subscriptions) the record stays, with \<^verbatim>\<open>hasValue\<close> true and, as its
  value, the data of the most recent \<^verbatim>\<open>fire\<close> on \<open>n\<close>; \<^verbatim>\<open>off(n)\<close> deletes it.
\<close>

lemma latest_value_kept_own:
  assumes "n \<noteq> []" "\<not> inherited n" "no_off n cs (snd (fire (JStr n) d (run cs0 (start env))))"
  shows "peek (snd (fire (JStr n) d (run cs0 (start env)))) n = Some d
    \<and> peek (run cs (snd (fire (JStr n) d (run cs0 (start env))))) n = Some (last_fired n d cs)
    \<and> peek (snd (off n (run cs (snd (fire (JStr n) d (run cs0 (start env))))))) n = None"
proof -
  let ?s1 = "snd (fire (JStr n) d (run cs0 (start env)))"
  have wf0: "wf (run cs0 (start env))" by (rule wf_reachable)
  then have la0: "inv_latest (run cs0 (start env))" by (simp add: wf_def)
  have wf1: "wf ?s1"
    using wf_apply_call [OF wf0, of "Fire (JStr n) d"] by simp
  then have la1: "inv_latest ?s1" by (simp add: wf_def)
  from peek_fire_same [OF la0 assms(1,2)] have p1: "peek ?s1 n = Some d" .
  then obtain r where r: "latestEventData ?s1 n = Some r"
    using peek_record [OF la1] by blast
  from run_without_off [OF wf1 p1 r assms(3,1)] p1 show ?thesis
    by (simp add: peek_off)
qed

section \<open>Cancelling by off\<close>

text \<open>C8 as stated fails in its last sentence: \<^verbatim>\<open>off\<close> deletes the latest-value
  record whether or not the name has listeners. After \<^verbatim>\<open>fire('a', 1)\<close> alone there
  is no subscriber at all, and \<^verbatim>\<open>off('a')\<close> changes what a later \<^verbatim>\<open>latest\<close> would
  replay. It also fails for a listener that the caller has subscribed to the stream
  which \<^verbatim>\<open>change('a')\<close> returns: the subscription is never registered, \<^verbatim>\<open>off('a')\<close>
  leaves it open, and it receives the \<^verbatim>\<open>fire('a', 1)\<close> that follows.\<close>

theorem off_without_listeners_counterexample:
  "eventManagerCore (run [Fire (JStr ''a'') (JNum 1)] init) = []
   \<and> peek (run [Fire (JStr ''a'') (JNum 1)] init) ''a'' = Some (JNum 1)
   \<and> peek (snd (off ''a'' (run [Fire (JStr ''a'') (JNum 1)] init))) ''a'' = None
   \<and> snd (off ''a'' (run [Fire (JStr ''a'') (JNum 1)] init)) \<noteq> run [Fire (JStr ''a'') (JNum 1)] init
   \<and> fst (change (JStr ''a'') (Value JUndefined) None init) = Inr (Changes 0)
   \<and> received (run [Change (JStr ''a'') (Value JUndefined) None,
        Derive 0 (DistinctUntilChanged (\<lambda>x y. keySelector x) None) (Some 0),
        Off ''a'', Fire (JStr ''a'') (JNum 1)] init) 0 = [JNum 1]"
proof -
  have "latestEventData (snd (off ''a'' (run [Fire (JStr ''a'') (JNum 1)] init))) \<noteq>
      latestEventData (run [Fire (JStr ''a'') (JNum 1)] init)"
    by (simp add: eval_defs split_beta Let_def fun_eq_iff)
  then have "snd (off ''a'' (run [Fire (JStr ''a'') (JNum 1)] init)) \<noteq>
      run [Fire (JStr ''a'') (JNum 1)] init"
    by metis
  then show ?thesis
    by (simp add: peek_def eval_defs split_beta Let_def)
qed

lemma off_without_collection:
  assumes "map_of (subscriptions s) n = None"
  shows "snd (off n s) = s\<lparr>latestEventData := (latestEventData s)(n := None)\<rparr>"
  using assms by (cases "latestEventData s n") (simp_all add: off_def Let_def fun_upd_idem)

lemma on_then_fire:
  assumes "wf s" "n \<noteq> []" "\<not> inherited n"
    and "\<forall>k < length (eventManagerCore s). \<not> throwing (callbacks s) n x (eventManagerCore s ! k)"
  shows "received (snd (fire (JStr n) x (snd (on (JStr n) (Some cb) s))))
           (length (eventManagerCore s)) = [x]"
proof -
  have st: "inv_streams s" and ca: "inv_calls s" using assms(1) by (simp_all add: wf_def)
  let ?s2 = "snd (on (JStr n) (Some cb) s)"
  have core: "eventManagerCore ?s2 = eventManagerCore s @
      [\<lparr>sub_event = n, sub_operator = Direct, sub_next = Some cb, sub_closed = False\<rparr>]"
    by (rule on_effect(2) [OF st assms(2,3)])
  have "received ?s2 (length (eventManagerCore s)) = []"
    using calls_fresh [OF ca] by (simp add: received_def)
  moreover have "reached (callbacks ?s2) n x (eventManagerCore ?s2) (length (eventManagerCore s))"
    using assms(4) by (simp add: reached_def core nth_append)
  ultimately show ?thesis
    by (simp add: received_fire [OF assms(2)] core hears_def passes_def)
qed

lemma latest_no_replay:
  assumes "wf s" "n \<noteq> []" "\<not> inherited n" "peek s n = None"
  shows "immediates (snd (latest (JStr n) (Some cb) s)) = immediates s"
    and "received (tick (snd (latest (JStr n) (Some cb) s))) (length (eventManagerCore s)) = []"
proof -
  let ?h = "length (eventManagerCore s)"
  let ?s' = "snd (latest (JStr n) (Some cb) s)"
  have st: "inv_streams s" and im: "inv_imm s" and ca: "inv_calls s"
    using assms(1) by (simp_all add: wf_def)
  show imm: "immediates ?s' = immediates s"
    by (simp add: latest_effect(4) [OF st assms(2,3)] scheduled_peek_None [OF assms(4)])
  have "?h \<notin> fst ` set (immediates ?s')"
    unfolding imm using im by (auto simp add: inv_imm_def)
  from tick_other [OF this] calls_fresh [OF ca] show "received (tick ?s') ?h = []"
    by (simp add: received_def)
qed

text \<open>
  C8, as amended. In every state the module can reach, \<^verbatim>\<open>off(n)\<close> returns normally,
  empties the collection of \<open>n\<close>, closes every subscription that is registered for
  \<open>n\<close> (the listeners made by \<^verbatim>\<open>on\<close>, \<^verbatim>\<open>once\<close>, \<^verbatim>\<open>latest\<close>, \<^verbatim>\<open>change\<close> with
  a callback, and by a subscription to \<^verbatim>\<open>observe(n)\<close>), and deletes the
  latest-value record of \<open>n\<close>. Afterwards: a subscription that was registered for
  \<open>n\<close> receives nothing any more, whatever is called (in particular \<^verbatim>\<open>fire(n, x)\<close>
  and the turns of the event loop); for a name \<open>n\<close> that is not an inherited key,
  \<^verbatim>\<open>latest(n, cb)\<close> queues no replay and the next turn of the event loop hands
  nothing to \<open>cb\<close>, and a listener registered by \<^verbatim>\<open>on(n, cb)\<close> after the \<^verbatim>\<open>off\<close>
  receives the \<open>x\<close> of a following \<^verbatim>\<open>fire(n, x)\<close>, provided no callback before it
  throws. When \<open>n\<close> has no collection, \<^verbatim>\<open>off(n)\<close> changes nothing but the
  latest-value record it deletes, and nothing at all when there is no such record
  either.
\<close>

theorem off_cancels:
  assumes "\<not> prototype_written (run cs' (snd (off n (run cs (start env)))))"
  shows "fst (off n (run cs (start env))) = Inr ()
    \<and> registered (snd (off n (run cs (start env)))) n = []
    \<and> peek (snd (off n (run cs (start env)))) n = None
    \<and> (\<forall>h \<in> set (registered (run cs (start env)) n).
          sub_closed (eventManagerCore (snd (off n (run cs (start env)))) ! h)
          \<and> received (run cs' (snd (off n (run cs (start env))))) h =
              received (run cs (start env)) h)
    \<and> (n \<noteq> [] \<and> \<not> inherited n \<longrightarrow>
          immediates (snd (latest (JStr n) (Some cb) (snd (off n (run cs (start env)))))) =
            immediates (run cs (start env))
          \<and> received (tick (snd (latest (JStr n) (Some cb) (snd (off n (run cs (start env)))))))
              (length (eventManagerCore (run cs (start env)))) = []
          \<and> fst (on (JStr n) (Some cb) (snd (off n (run cs (start env))))) =
              Inr (length (eventManagerCore (run cs (start env))))
          \<and> ((\<forall>k < length (eventManagerCore (run cs (start env))).
                 \<not> throwing env n x (eventManagerCore (snd (off n (run cs (start env)))) ! k)) \<longrightarrow>
              received (snd (fire (JStr n) x
                  (snd (on (JStr n) (Some cb) (snd (off n (run cs (start env))))))))
                (length (eventManagerCore (run cs (start env)))) = [x]))
    \<and> (map_of (subscriptions (run cs (start env))) n = None \<longrightarrow>
          snd (off n (run cs (start env))) =
            (run cs (start env))\<lparr>latestEventData := (latestEventData (run cs (start env)))(n := None)\<rparr>)
    \<and> (map_of (subscriptions (run cs (start env))) n = None
         \<and> latestEventData (run cs (start env)) n = None \<longrightarrow>
          off n (run cs (start env)) = (Inr (), run cs (start env)))"
proof -
  let ?s = "run cs (start env)"
  let ?s1 = "snd (off n ?s)"
  have wf: "wf ?s" by (rule wf_reachable)
  then have reg: "inv_reg ?s" by (simp add: wf_def)
  have wf1: "wf ?s1" by (rule wf_off [OF wf])
  then have st1: "inv_streams ?s1" by (simp add: wf_def)
  have len: "length (eventManagerCore ?s1) = length (eventManagerCore ?s)" by simp
  have p1: "peek ?s1 n = None" by (simp add: peek_off)
  have cancelled: "sub_closed (eventManagerCore ?s1 ! h)
      \<and> received (run cs' ?s1) h = received ?s h"
    if "h \<in> set (registered ?s n)" for h
  proof -
    from that reg have h: "h < length (eventManagerCore ?s)"
      unfolding inv_reg_def by blast
    have c: "sub_closed (eventManagerCore ?s1 ! h)"
      using that by (simp add: off_nth [OF h])
    from closed_run [OF wf1 _ c, of cs'] h show ?thesis
      using c by simp
  qed
  have later: "immediates (snd (latest (JStr n) (Some cb) ?s1)) = immediates ?s
      \<and> received (tick (snd (latest (JStr n) (Some cb) ?s1))) (length (eventManagerCore ?s)) = []
      \<and> fst (on (JStr n) (Some cb) ?s1) = Inr (length (eventManagerCore ?s))
      \<and> ((\<forall>k < length (eventManagerCore ?s).
             \<not> throwing env n x (eventManagerCore ?s1 ! k)) \<longrightarrow>
          received (snd (fire (JStr n) x (snd (on (JStr n) (Some cb) ?s1))))
            (length (eventManagerCore ?s)) = [x])"
    if n: "n \<noteq> []" "\<not> inherited n"
    using latest_no_replay [OF wf1 n p1, of cb] on_then_fire [OF wf1 n, of x cb]
      on_effect(1) [OF st1 n, of "Some cb"]
    by (simp add: len)
  have noop: "off n ?s = (Inr (), ?s)"
    if "map_of (subscriptions ?s) n = None" "latestEventData ?s n = None"
    using off_without_collection [OF that(1)] that(2)
    by (simp add: prod_eq_iff fun_upd_idem)
  show ?thesis
    using cancelled later noop off_without_collection [of ?s n] p1 by simp
qed

theorem off_cancels_witness:
  "received (run [Fire (JStr ''a'') (JNum 2), Tick]
      (snd (off ''a'' (run [On (JStr ''a'') (Some 0), Fire (JStr ''a'') (JNum 1)]
         (start (\<lambda>cb v. returns)))))) 0 = [JNum 1]
   \<and> received (snd (fire (JStr ''a'') (JNum 5) (snd (on (JStr ''a'') (Some 1)
        (snd (off ''a'' (run [On (JStr ''a'') (Some 0), Fire (JStr ''a'') (JNum 1)]
           (start (\<lambda>cb v. returns))))))))) 1 = [JNum 5]
   \<and> off ''b'' (run [On (JStr ''a'') (Some 0), Fire (JStr ''a'') (JNum 1)]
        (start (\<lambda>cb v. returns))) =
       (Inr (), run [On (JStr ''a'') (Some 0), Fire (JStr ''a'') (JNum 1)]
          (start (\<lambda>cb v. returns)))"
proof -
  have a: "\<not> prototype_written (run [Fire (JStr ''a'') (JNum 2), Tick]
      (snd (off ''a'' (run [On (JStr ''a'') (Some 0), Fire (JStr ''a'') (JNum 1)]
         (start (\<lambda>cb v. returns))))))"
    by (simp add: eval_defs split_beta Let_def)
  have b: "\<not> prototype_written (run []
      (snd (off ''b'' (run [On (JStr ''a'') (Some 0), Fire (JStr ''a'') (JNum 1)]
         (start (\<lambda>cb v. returns))))))"
    by (simp add: eval_defs split_beta Let_def)
  show ?thesis
    using off_cancels [OF a, where cb = 1 and x = "JNum 5"] off_cancels [OF b]
    by (simp add: eval_defs throwing_def hears_def split_beta Let_def)
qed

end
